theory Spec2Isabelle
  imports Main "HOL-Library.Word" "HOL-Library.AList"
begin

unbundle bit_operations_syntax

section \<open>Data model of the session (src/src/sessionImpl.ts)\<close>

text \<open>
  An entity is a JavaScript object; the model names it by its address. The only attribute
  of an entity that the session reads or writes is \<open>_id\<close>. It holds an Identifier (an
  object, hence truthy whenever it is present) and the session uses it through
  \<open>toString()\<close> only, so the model identifies an identifier with that string.
  A private method \<open>_name\<close> of the source is \<open>u_name\<close> here.
\<close>

type_synonym oid = nat
type_synonym doc = nat

text \<open>
  The table of links is a plain JavaScript object keyed by the string of the identifier.
  Such an object treats two kinds of keys in a way of its own: a key that is an integer
  index is enumerated before the other keys and in numeric order, whenever it was stored,
  and for a key that names a member inherited from \<open>Object.prototype\<close> a lookup finds
  that member where nothing was stored. The type of identifiers is a type of other
  strings, the plain keys: the strings that are not made of digits only (as every integer
  index is) and are not such a name. A plain key is found in the table exactly when a
  link was stored under it, and a plain key that is new to the table is enumerated after
  the keys already there. The model says nothing about a session that is given an
  identifier outside of this type.
\<close>

definition prototypeNames :: "string list" where
  "prototypeNames =
     [''constructor'', ''hasOwnProperty'', ''isPrototypeOf'', ''propertyIsEnumerable'',
      ''toLocaleString'', ''toString'', ''valueOf'', ''__defineGetter__'', ''__defineSetter__'',
      ''__lookupGetter__'', ''__lookupSetter__'', ''__proto__'']"

definition digitsOnly :: "string \<Rightarrow> bool" where
  "digitsOnly k \<longleftrightarrow> k \<noteq> [] \<and> list_all (\<lambda>c. c \<in> set ''0123456789'') k"

definition plainKey :: "string \<Rightarrow> bool" where
  "plainKey k \<longleftrightarrow> \<not> digitsOnly k \<and> k \<notin> set prototypeNames"

typedef ident = "{k. plainKey k}"
  by (rule exI [of _ "''a''"]) (simp add: plainKey_def digitsOnly_def prototypeNames_def)

text \<open>The identifier with a given string (a plain key).\<close>

definition key :: "string \<Rightarrow> ident" where
  "key k = Abs_ident k"

datatype ObjectState = Managed | Detached | Removed

text \<open>\<open>ScheduledOperation.None\<close> (value 0, the only falsy member) is \<open>OpNone\<close>.\<close>

datatype ScheduledOperation = OpNone | Insert | Update | Delete | DirtyCheck

datatype ChangeTracking = DeferredImplicit | DeferredExplicit | Observe

datatype Action = Save | Remove | Detach | Flush | Clear | Find | Refresh | Merge | Fetch

fun Action_bit :: "Action \<Rightarrow> 32 word" where
  "Action_bit Save = 0x00000001"
| "Action_bit Remove = 0x00000002"
| "Action_bit Detach = 0x00000004"
| "Action_bit Flush = 0x00000008"
| "Action_bit Clear = 0x00000010"
| "Action_bit Find = 0x00000020"
| "Action_bit Refresh = 0x00000040"
| "Action_bit Merge = 0x00000080"
| "Action_bit Fetch = 0x00000100"

definition Action_All :: "32 word" where
  "Action_All = Action_bit Save OR Action_bit Remove OR Action_bit Detach OR Action_bit Flush
     OR Action_bit Clear OR Action_bit Find OR Action_bit Refresh OR Action_bit Merge
     OR Action_bit Fetch"

text \<open>PropertyFlags (src/unnamed/part_001), the members the session passes to the walker.\<close>

definition CascadeSave :: "32 word" where "CascadeSave = 0x00000002"
definition CascadeRemove :: "32 word" where "CascadeRemove = 0x00000004"
definition CascadeDetach :: "32 word" where "CascadeDetach = 0x00000008"
definition Dereference :: "32 word" where "Dereference = 0x00000200"

text \<open>
  A persister is the object the factory creates for a mapping; the session reads its
  \<open>changeTracking\<close> and calls its methods. A mapping is named by its \<open>id\<close>.
\<close>

record Persister =
  mappingId :: nat
  changeTracking :: ChangeTracking

record ObjectLinks =
  state :: ObjectState
  scheduledOperation :: ScheduledOperation
  object :: oid
  originalDocument :: "doc option"
  persister :: Persister

text \<open>
  Errors passed to a callback, and exceptions thrown. \<open>External n\<close> is an error value
  produced by a collaborator (persister, batch, walker, reference).
\<close>

datatype error =
    NotMapped
  | CannotSaveDetached
  | CannotRemoveDetached
  | External nat

datatype exn = AlreadyManaged ident | TypeError

text \<open>
  What becomes of the callback of an operation: called without error (with the result
  value, if any), called with an error, never called, or not reached because the
  operation threw.
\<close>

datatype completion = Success "oid option" | Failure error | NeverCalled | Throws exn

datatype batch_op = UpdateOp oid | InsertOp oid | DeleteOp oid

type_synonym Batch = "batch_op list"

text \<open>The \<open>{value, error}\<close> pair a persister call returns.\<close>

record Result =
  res_value :: "doc option"
  res_error :: "error option"

text \<open>
  Modelled from the spec: the persister (src/persister.ts, persisterImpl.ts) is not among
  the sources. According to the spec, \<open>dirtyCheck\<close> appends 0 or 1 update operations to
  the batch, \<open>insert\<close> appends 1 insert operation and \<open>remove\<close> appends 1 delete
  operation. \<open>dc_dirty\<close> tells whether the dirty check found a change.
\<close>

record DirtyCheckResult = Result +
  dc_dirty :: bool

text \<open>
  The \<open>id\<close> argument of \<open>find\<close> and \<open>getReference\<close>, and the \<open>id\<close> of a reference: a
  string, or an identifier.
\<close>

datatype id_arg = IdString string | IdValue ident

record Reference =
  ref_mapping :: "nat option"
  ref_id :: id_arg

text \<open>
  The state: the two tables of \<open>SessionImpl\<close>, and the part of the world the session
  writes: the \<open>_id\<close> attribute of every entity, and the number of identifiers the
  identity generators have produced so far.

  \<open>_objectLinks\<close> is a plain object used as a map from \<open>id.toString()\<close> to the link.
  It is an association list in enumeration order (\<open>for ... in\<close> lists plain keys in
  insertion order), with one entry per key. Every entry holds a link object of its own:
  \<open>_linkObject\<close> creates the object and stores it in one slot, and nothing else stores
  a link. A reference to a link is therefore modelled by the key of its slot, and an
  assignment through the reference by an update of that slot, which has no effect once
  the slot has been deleted.
\<close>

record session =
  objectLinks :: "(ident \<times> ObjectLinks) list"
  persisterByMapping :: "nat \<Rightarrow> Persister option"
  id_attr :: "oid \<Rightarrow> ident option"
  generated :: nat

text \<open>
  Modelled from the spec: what a collaborator that loads entities hands back. The
  persister's \<open>findOneById\<close>, \<open>Reference.fetch\<close> and \<open>EntityMapping.walk\<close> are not
  among the sources; according to the spec an entity loaded from the store is linked
  as Managed with its source document as snapshot, which is \<open>registerManaged\<close> of the
  session. \<open>registered\<close> lists those calls in order, \<open>outcome\<close> is what the
  collaborator passes to its callback.
\<close>

record 'a loaded =
  registered :: "(Persister \<times> oid \<times> doc) list"
  outcome :: "error + 'a"

text \<open>
  The collaborators of the session, as parameters: the session factory, the identity
  generator of a mapping (its \<open>n\<close>-th identifier, and its parser of strings), which is
  also the \<open>identity\<close> of the mapping's persister, the persister's methods, the batch,
  the walker and the references.
\<close>

record env =
  getMappingForObject :: "oid \<Rightarrow> nat option"
  getMappingForConstructor :: "nat \<Rightarrow> nat option"
  createPersister :: "nat \<Rightarrow> Persister"
  identity_generate :: "nat \<Rightarrow> nat \<Rightarrow> ident"
  identity_fromString :: "nat \<Rightarrow> string \<Rightarrow> ident"
  p_dirtyCheck :: "Persister \<Rightarrow> oid \<Rightarrow> doc option \<Rightarrow> DirtyCheckResult"
  p_insert :: "Persister \<Rightarrow> oid \<Rightarrow> Result"
  p_findOneById :: "Persister \<Rightarrow> ident \<Rightarrow> session \<Rightarrow> (oid option) loaded"
  batch_execute :: "Batch \<Rightarrow> error option"
  mapping_walk :: "nat \<Rightarrow> oid \<Rightarrow> 32 word \<Rightarrow> session \<Rightarrow> (oid list) loaded"
  reference_fetch :: "Reference \<Rightarrow> session \<Rightarrow> (oid option) loaded"

section \<open>Identity table: linking and unlinking\<close>

definition getPersister :: "env \<Rightarrow> nat \<Rightarrow> session \<Rightarrow> session \<times> Persister" where
  "getPersister e mapping s =
     (case persisterByMapping s mapping of
        Some p \<Rightarrow> (s, p)
      | None \<Rightarrow>
          (let p = createPersister e mapping
           in (s\<lparr>persisterByMapping := (persisterByMapping s)(mapping \<mapsto> p)\<rparr>, p)))"

definition u_getPersisterForObject :: "env \<Rightarrow> oid \<Rightarrow> session \<Rightarrow> session \<times> Persister option" where
  "u_getPersisterForObject e obj s =
     (case getMappingForObject e obj of
        None \<Rightarrow> (s, None)
      | Some mapping \<Rightarrow> (case getPersister e mapping s of (s1, p) \<Rightarrow> (s1, Some p)))"

definition u_getPersisterForConstructor :: "env \<Rightarrow> nat \<Rightarrow> session \<Rightarrow> session \<times> Persister option" where
  "u_getPersisterForConstructor e ctr s =
     (case getMappingForConstructor e ctr of
        None \<Rightarrow> (s, None)
      | Some mapping \<Rightarrow> (case getPersister e mapping s of (s1, p) \<Rightarrow> (s1, Some p)))"

text \<open>Assignment to fields of the link stored under key \<open>k\<close>.\<close>

definition setLink :: "ident \<Rightarrow> (ObjectLinks \<Rightarrow> ObjectLinks) \<Rightarrow> session \<Rightarrow> session" where
  "setLink k f s = s\<lparr>objectLinks := AList.map_entry k f (objectLinks s)\<rparr>"

text \<open>
  \<open>_linkObject\<close>: \<open>obj["_id"].toString()\<close> throws a TypeError when the entity has no
  \<open>_id\<close>; a key that is taken throws. The new slot is the last of the enumeration, its
  key being a plain key. Returns the key and the new link.
\<close>

definition u_linkObject ::
  "oid \<Rightarrow> Persister \<Rightarrow> ScheduledOperation \<Rightarrow> session \<Rightarrow> exn + (session \<times> ident \<times> ObjectLinks)" where
  "u_linkObject obj p operation s =
     (case id_attr s obj of
        None \<Rightarrow> Inl TypeError
      | Some k \<Rightarrow>
          (if map_of (objectLinks s) k \<noteq> None then Inl (AlreadyManaged k)
           else
             (let links = \<lparr>state = Managed, scheduledOperation = operation, object = obj,
                           originalDocument = None, persister = p\<rparr>
              in Inr (s\<lparr>objectLinks := objectLinks s @ [(k, links)]\<rparr>, k, links))))"

text \<open>
  \<open>_unlinkObject\<close>: deletes the slot named by the \<open>_id\<close> of the link's entity, then
  deletes that \<open>_id\<close> when the entity was never persisted or has been removed.
\<close>

definition u_unlinkObject :: "ObjectLinks \<Rightarrow> session \<Rightarrow> exn + session" where
  "u_unlinkObject links s =
     (case id_attr s (object links) of
        None \<Rightarrow> Inl TypeError
      | Some k \<Rightarrow>
          (let s1 = s\<lparr>objectLinks := AList.delete k (objectLinks s)\<rparr>
           in Inr (if scheduledOperation links = Insert \<or> state links = Removed
                   then s1\<lparr>id_attr := (id_attr s1)(object links := None)\<rparr>
                   else s1)))"

text \<open>
  \<open>_getObjectLinks\<close>: the link of an entity, as its key and its value. An entity with
  an \<open>_id\<close> that names no slot is taken to be detached: when its type is mapped, a link
  is stored for it and its state is set to Detached.
\<close>

definition u_getObjectLinks ::
  "env \<Rightarrow> oid \<Rightarrow> session \<Rightarrow> session \<times> (exn + (ident \<times> ObjectLinks) option)" where
  "u_getObjectLinks e obj s =
     (case id_attr s obj of
        None \<Rightarrow> (s, Inr None)
      | Some k \<Rightarrow>
          (case map_of (objectLinks s) k of
             Some links \<Rightarrow> (s, Inr (Some (k, links)))
           | None \<Rightarrow>
               (case u_getPersisterForObject e obj s of
                  (s1, None) \<Rightarrow> (s1, Inr None)
                | (s1, Some p) \<Rightarrow>
                    (case u_linkObject obj p OpNone s1 of
                       Inl x \<Rightarrow> (s1, Inl x)
                     | Inr (s2, k2, links) \<Rightarrow>
                         (setLink k2 (\<lambda>l. l\<lparr>state := Detached\<rparr>) s2,
                          Inr (Some (k2, links\<lparr>state := Detached\<rparr>)))))))"

definition registerManaged :: "Persister \<Rightarrow> oid \<Rightarrow> doc \<Rightarrow> session \<Rightarrow> exn + session" where
  "registerManaged p entity document s =
     (case u_linkObject entity p OpNone s of
        Inl x \<Rightarrow> Inl x
      | Inr (s1, k, links) \<Rightarrow> Inr (setLink k (\<lambda>l. l\<lparr>originalDocument := Some document\<rparr>) s1))"

definition getId :: "session \<Rightarrow> oid \<Rightarrow> ident option" where
  "getId s obj = id_attr s obj"

definition contains :: "session \<Rightarrow> oid \<Rightarrow> bool" where
  "contains s obj =
     (case id_attr s obj of
        None \<Rightarrow> False
      | Some k \<Rightarrow>
          (case map_of (objectLinks s) k of
             None \<Rightarrow> False
           | Some links \<Rightarrow> state links \<noteq> Removed))"

text \<open>\<open>getObject\<close>: \<open>None\<close> is undefined (no link), \<open>Some None\<close> is null (removed).\<close>

definition getObject :: "session \<Rightarrow> ident \<Rightarrow> oid option option" where
  "getObject s k =
     (case map_of (objectLinks s) k of
        None \<Rightarrow> None
      | Some links \<Rightarrow> Some (if state links = Removed then None else Some (object links)))"

section \<open>Collaborators that load entities\<close>

fun registerAll :: "(Persister \<times> oid \<times> doc) list \<Rightarrow> session \<Rightarrow> session \<times> exn option" where
  "registerAll [] s = (s, None)"
| "registerAll ((p, entity, document) # rest) s =
     (case registerManaged p entity document s of
        Inl x \<Rightarrow> (s, Some x)
      | Inr s1 \<Rightarrow> registerAll rest s1)"

text \<open>
  A call of a loading collaborator: its \<open>registerManaged\<close> calls reach the session, then
  its outcome reaches the callback.
\<close>

definition collaborate :: "'a loaded \<Rightarrow> session \<Rightarrow> session \<times> (exn + error + 'a)" where
  "collaborate r s =
     (case registerAll (registered r) s of
        (s1, Some x) \<Rightarrow> (s1, Inl x)
      | (s1, None) \<Rightarrow> (s1, Inr (outcome r)))"

definition u_walk :: "env \<Rightarrow> nat \<Rightarrow> oid \<Rightarrow> 32 word \<Rightarrow> session \<Rightarrow> session \<times> (exn + error + oid list)" where
  "u_walk e mapping entity flags s = collaborate (mapping_walk e mapping entity flags s) s"

definition u_findReferencedEntities ::
  "env \<Rightarrow> oid \<Rightarrow> 32 word \<Rightarrow> session \<Rightarrow> session \<times> (exn + error + oid list)" where
  "u_findReferencedEntities e obj flags s =
     (case getMappingForObject e obj of
        None \<Rightarrow> (s, Inr (Inl NotMapped))
      | Some mapping \<Rightarrow> u_walk e mapping obj flags s)"

section \<open>save, remove, detach\<close>

text \<open>
  A \<open>for\<close> loop over entities whose body may return early after calling the callback
  (\<open>Some\<close> of what it did); after the last entity the callback is called without error.
\<close>

fun forEntities ::
  "(oid \<Rightarrow> session \<Rightarrow> session \<times> completion option) \<Rightarrow> oid list \<Rightarrow> session \<Rightarrow> session \<times> completion" where
  "forEntities body [] s = (s, Success None)"
| "forEntities body (obj # rest) s =
     (case body obj s of
        (s1, Some c) \<Rightarrow> (s1, c)
      | (s1, None) \<Rightarrow> forEntities body rest s1)"

text \<open>The body of the loop of \<open>_saveEntities\<close>.\<close>

definition saveEntity :: "env \<Rightarrow> oid \<Rightarrow> session \<Rightarrow> session \<times> completion option" where
  "saveEntity e obj s =
     (case u_getObjectLinks e obj s of
        (s1, Inl x) \<Rightarrow> (s1, Some (Throws x))
      | (s1, Inr None) \<Rightarrow>
          (case u_getPersisterForObject e obj s1 of
             (s2, None) \<Rightarrow> (s2, Some (Failure NotMapped))
           | (s2, Some p) \<Rightarrow>
               (let s3 = s2\<lparr>id_attr := (id_attr s2)(obj \<mapsto> identity_generate e (mappingId p) (generated s2)),
                            generated := Suc (generated s2)\<rparr>
                in case u_linkObject obj p Insert s3 of
                     Inl x \<Rightarrow> (s3, Some (Throws x))
                   | Inr (s4, k, links) \<Rightarrow> (s4, None)))
      | (s1, Inr (Some (k, links))) \<Rightarrow>
          (case state links of
             Managed \<Rightarrow>
               (if changeTracking (persister links) = DeferredExplicit
                   \<and> scheduledOperation links = OpNone
                then (setLink k (\<lambda>l. l\<lparr>scheduledOperation := DirtyCheck\<rparr>) s1, None)
                else (s1, None))
           | Detached \<Rightarrow> (s1, Some (Failure CannotSaveDetached))
           | Removed \<Rightarrow>
               (setLink k (\<lambda>l. l\<lparr>scheduledOperation := OpNone, state := Managed\<rparr>) s1, None)))"

definition u_saveEntities :: "env \<Rightarrow> oid list \<Rightarrow> session \<Rightarrow> session \<times> completion" where
  "u_saveEntities e entities s = forEntities (saveEntity e) entities s"

definition u_save :: "env \<Rightarrow> oid \<Rightarrow> session \<Rightarrow> session \<times> completion" where
  "u_save e obj s =
     (case u_findReferencedEntities e obj CascadeSave s of
        (s1, Inl x) \<Rightarrow> (s1, Throws x)
      | (s1, Inr (Inl err)) \<Rightarrow> (s1, Failure err)
      | (s1, Inr (Inr entities)) \<Rightarrow> u_saveEntities e entities s1)"

text \<open>The body of the loop of \<open>_removeEntities\<close>.\<close>

definition removeEntity :: "env \<Rightarrow> oid \<Rightarrow> session \<Rightarrow> session \<times> completion option" where
  "removeEntity e obj s =
     (case u_getObjectLinks e obj s of
        (s1, Inl x) \<Rightarrow> (s1, Some (Throws x))
      | (s1, Inr None) \<Rightarrow> (s1, None)
      | (s1, Inr (Some (k, links))) \<Rightarrow>
          (case state links of
             Managed \<Rightarrow>
               (if scheduledOperation links = Insert
                then (case u_unlinkObject links s1 of
                        Inl x \<Rightarrow> (s1, Some (Throws x))
                      | Inr s2 \<Rightarrow> (s2, None))
                else (setLink k (\<lambda>l. l\<lparr>scheduledOperation := Delete, state := Removed\<rparr>) s1, None))
           | Detached \<Rightarrow> (s1, Some (Failure CannotRemoveDetached))
           | Removed \<Rightarrow> (s1, None)))"

text \<open>\<open>_removeEntities\<close> runs over the entities in reverse order.\<close>

definition u_removeEntities :: "env \<Rightarrow> oid list \<Rightarrow> session \<Rightarrow> session \<times> completion" where
  "u_removeEntities e entities s = forEntities (removeEntity e) (rev entities) s"

definition u_remove :: "env \<Rightarrow> oid \<Rightarrow> session \<Rightarrow> session \<times> completion" where
  "u_remove e obj s =
     (case u_findReferencedEntities e obj (CascadeRemove OR Dereference) s of
        (s1, Inl x) \<Rightarrow> (s1, Throws x)
      | (s1, Inr (Inl err)) \<Rightarrow> (s1, Failure err)
      | (s1, Inr (Inr entities)) \<Rightarrow> u_removeEntities e entities s1)"

text \<open>The body of the loop of \<open>_detachEntities\<close>.\<close>

definition detachEntity :: "env \<Rightarrow> oid \<Rightarrow> session \<Rightarrow> session \<times> completion option" where
  "detachEntity e obj s =
     (case u_getObjectLinks e obj s of
        (s1, Inl x) \<Rightarrow> (s1, Some (Throws x))
      | (s1, Inr None) \<Rightarrow> (s1, None)
      | (s1, Inr (Some (k, links))) \<Rightarrow>
          (if state links = Managed
           then (case u_unlinkObject links s1 of
                   Inl x \<Rightarrow> (s1, Some (Throws x))
                 | Inr s2 \<Rightarrow> (s2, None))
           else (s1, None)))"

definition u_detachEntities :: "env \<Rightarrow> oid list \<Rightarrow> session \<Rightarrow> session \<times> completion" where
  "u_detachEntities e entities s = forEntities (detachEntity e) entities s"

definition u_detach :: "env \<Rightarrow> oid \<Rightarrow> session \<Rightarrow> session \<times> completion" where
  "u_detach e obj s =
     (case u_findReferencedEntities e obj CascadeDetach s of
        (s1, Inl x) \<Rightarrow> (s1, Throws x)
      | (s1, Inr (Inl err)) \<Rightarrow> (s1, Failure err)
      | (s1, Inr (Inr entities)) \<Rightarrow> u_detachEntities e entities s1)"

section \<open>flush\<close>

text \<open>The condition of the first loop of \<open>_flush\<close>.\<close>

definition needsDirtyCheck :: "ObjectLinks \<Rightarrow> bool" where
  "needsDirtyCheck links \<longleftrightarrow>
     scheduledOperation links = DirtyCheck
     \<or> (changeTracking (persister links) = DeferredImplicit \<and> scheduledOperation links = OpNone)"

text \<open>
  The three loops that fill the batch. Each runs over \<open>list\<close>, the links of the table
  as \<open>_getAllObjectLinks\<close> enumerates them; the links are the table's own objects, so
  the list a loop returns is also the table it leaves. A loop stops at the first error
  of a persister (\<open>Some\<close> of the error).
\<close>

fun dirtyCheckPass ::
  "env \<Rightarrow> (ident \<times> ObjectLinks) list \<Rightarrow> Batch \<Rightarrow> (ident \<times> ObjectLinks) list \<times> Batch \<times> error option" where
  "dirtyCheckPass e [] batch = ([], batch, None)"
| "dirtyCheckPass e ((k, links) # rest) batch =
     (if needsDirtyCheck links then
        (let result = p_dirtyCheck e (persister links) (object links) (originalDocument links)
         in case res_error result of
              Some err \<Rightarrow> ((k, links) # rest, batch, Some err)
            | None \<Rightarrow>
                (case dirtyCheckPass e rest
                        (if dc_dirty result then batch @ [UpdateOp (object links)] else batch) of
                   (rest1, batch1, r) \<Rightarrow>
                     ((k, links\<lparr>originalDocument := res_value result\<rparr>) # rest1, batch1, r)))
      else
        (case dirtyCheckPass e rest batch of
           (rest1, batch1, r) \<Rightarrow> ((k, links) # rest1, batch1, r)))"

fun insertPass ::
  "env \<Rightarrow> (ident \<times> ObjectLinks) list \<Rightarrow> Batch \<Rightarrow> (ident \<times> ObjectLinks) list \<times> Batch \<times> error option" where
  "insertPass e [] batch = ([], batch, None)"
| "insertPass e ((k, links) # rest) batch =
     (if scheduledOperation links = Insert then
        (let result = p_insert e (persister links) (object links)
         in case res_error result of
              Some err \<Rightarrow> ((k, links) # rest, batch, Some err)
            | None \<Rightarrow>
                (case insertPass e rest (batch @ [InsertOp (object links)]) of
                   (rest1, batch1, r) \<Rightarrow>
                     ((k, links\<lparr>originalDocument := res_value result\<rparr>) # rest1, batch1, r)))
      else
        (case insertPass e rest batch of
           (rest1, batch1, r) \<Rightarrow> ((k, links) # rest1, batch1, r)))"

fun deletePass :: "(ident \<times> ObjectLinks) list \<Rightarrow> Batch \<Rightarrow> Batch" where
  "deletePass [] batch = batch"
| "deletePass ((k, links) # rest) batch =
     (if scheduledOperation links = Delete
      then deletePass rest (batch @ [DeleteOp (object links)])
      else deletePass rest batch)"

text \<open>The assembly of the batch: the three loops, one after the other.\<close>

definition assemble :: "env \<Rightarrow> session \<Rightarrow> (ident \<times> ObjectLinks) list \<times> Batch \<times> error option" where
  "assemble e s =
     (case dirtyCheckPass e (objectLinks s) [] of
        (list1, batch1, Some err) \<Rightarrow> (list1, batch1, Some err)
      | (list1, batch1, None) \<Rightarrow>
          (case insertPass e list1 batch1 of
             (list2, batch2, Some err) \<Rightarrow> (list2, batch2, Some err)
           | (list2, batch2, None) \<Rightarrow> (list2, deletePass list2 batch2, None)))"

text \<open>
  The loop in the callback of \<open>batch.execute\<close>, over the same list. The assignment
  \<open>links.scheduledOperation = None\<close> reaches the table when the link is still in it.
\<close>

fun reconcile :: "(ident \<times> ObjectLinks) list \<Rightarrow> session \<Rightarrow> session \<times> exn option" where
  "reconcile [] s = (s, None)"
| "reconcile ((k, links) # rest) s =
     (if scheduledOperation links = Delete then
        (case u_unlinkObject links s of
           Inl x \<Rightarrow> (s, Some x)
         | Inr s1 \<Rightarrow> reconcile rest (setLink k (\<lambda>l. l\<lparr>scheduledOperation := OpNone\<rparr>) s1))
      else reconcile rest (setLink k (\<lambda>l. l\<lparr>scheduledOperation := OpNone\<rparr>) s))"

definition u_flush :: "env \<Rightarrow> session \<Rightarrow> session \<times> completion" where
  "u_flush e s =
     (case assemble e s of
        (list, batch, Some err) \<Rightarrow> (s\<lparr>objectLinks := list\<rparr>, Failure err)
      | (list, batch, None) \<Rightarrow>
          (case batch_execute e batch of
             Some err \<Rightarrow> (s\<lparr>objectLinks := list\<rparr>, Failure err)
           | None \<Rightarrow>
               (case reconcile list (s\<lparr>objectLinks := list\<rparr>) of
                  (s1, Some x) \<Rightarrow> (s1, Throws x)
                | (s1, None) \<Rightarrow> (s1, Success None))))"

section \<open>clear, find, fetch\<close>

definition u_clear :: "session \<Rightarrow> session \<times> completion" where
  "u_clear s = (s\<lparr>objectLinks := []\<rparr>, Success None)"

definition findOneById :: "env \<Rightarrow> Persister \<Rightarrow> ident \<Rightarrow> session \<Rightarrow> session \<times> completion" where
  "findOneById e p k s =
     (case collaborate (p_findOneById e p k s) s of
        (s1, Inl x) \<Rightarrow> (s1, Throws x)
      | (s1, Inr (Inl err)) \<Rightarrow> (s1, Failure err)
      | (s1, Inr (Inr r)) \<Rightarrow> (s1, Success r))"

definition u_find :: "env \<Rightarrow> nat \<Rightarrow> id_arg \<Rightarrow> session \<Rightarrow> session \<times> completion" where
  "u_find e ctr i s =
     (case u_getPersisterForConstructor e ctr s of
        (s1, None) \<Rightarrow> (s1, Failure NotMapped)
      | (s1, Some p) \<Rightarrow>
          findOneById e p
            (case i of IdString str \<Rightarrow> identity_fromString e (mappingId p) str | IdValue k \<Rightarrow> k) s1)"

text \<open>
  \<open>_fetchPaths\<close>: the callback is scheduled when \<open>paths\<close> is missing or empty; the
  method has no other statement.
\<close>

definition u_fetchPaths :: "oid option \<Rightarrow> string list option \<Rightarrow> session \<Rightarrow> session \<times> completion" where
  "u_fetchPaths obj paths s =
     (if (case paths of None \<Rightarrow> True | Some ps \<Rightarrow> length ps = 0)
      then (s, Success obj)
      else (s, NeverCalled))"

datatype target = Entity oid | Ref Reference

definition u_fetch :: "env \<Rightarrow> target \<Rightarrow> string list option \<Rightarrow> session \<Rightarrow> session \<times> completion" where
  "u_fetch e obj paths s =
     (case obj of
        Ref r \<Rightarrow>
          (case collaborate (reference_fetch e r s) s of
             (s1, Inl x) \<Rightarrow> (s1, Throws x)
           | (s1, Inr (Inl err)) \<Rightarrow> (s1, Failure err)
           | (s1, Inr (Inr entity)) \<Rightarrow> u_fetchPaths entity paths s1)
      | Entity ent \<Rightarrow> u_fetchPaths (Some ent) paths s)"

text \<open>
  \<open>getReference\<close> looks the table up with the string of its \<open>id\<close> argument, which
  stays the string it was given when the constructor has no mapping. For a string that
  is not a plain key the lookup does not find an entity: no link is stored under an
  integer index, and an inherited member has no \<open>object\<close>.
\<close>

definition getObjectByString :: "session \<Rightarrow> id_arg \<Rightarrow> oid option option" where
  "getObjectByString s i =
     (case i of
        IdValue k \<Rightarrow> getObject s k
      | IdString str \<Rightarrow> (if plainKey str then getObject s (key str) else None))"

definition getReferenceInternal :: "session \<Rightarrow> nat option \<Rightarrow> id_arg \<Rightarrow> target" where
  "getReferenceInternal s mapping i =
     (case getObjectByString s i of
        Some (Some obj) \<Rightarrow> Entity obj
      | _ \<Rightarrow> Ref \<lparr>ref_mapping = mapping, ref_id = i\<rparr>)"

definition getReference :: "env \<Rightarrow> session \<Rightarrow> nat \<Rightarrow> id_arg \<Rightarrow> target" where
  "getReference e s ctr i =
     (let mapping = getMappingForConstructor e ctr
      in getReferenceInternal s mapping
           (case i of
              IdValue k \<Rightarrow> IdValue k
            | IdString str \<Rightarrow>
                (case mapping of
                   None \<Rightarrow> IdString str
                 | Some m \<Rightarrow> IdValue (identity_fromString e m str))))"

section \<open>The task queue's entry points\<close>

datatype args =
    NoArg
  | ObjArg oid
  | FindArgs nat id_arg
  | FetchArgs target "string list option"

text \<open>
  \<open>_execute\<close>: the \<open>switch\<close> has the seven cases below and no default. The last line
  is every other action (Refresh and Merge), for which no statement runs; it also stands
  for an argument of the wrong shape, which the public methods below never enqueue.
  The methods \<open>_refresh\<close> and \<open>_refreshEntities\<close> of the source are called from
  nowhere and are not modelled.
\<close>

definition u_execute :: "env \<Rightarrow> Action \<Rightarrow> args \<Rightarrow> session \<Rightarrow> session \<times> completion" where
  "u_execute e act a s =
     (case (act, a) of
        (Save, ObjArg obj) \<Rightarrow> u_save e obj s
      | (Remove, ObjArg obj) \<Rightarrow> u_remove e obj s
      | (Detach, ObjArg obj) \<Rightarrow> u_detach e obj s
      | (Clear, _) \<Rightarrow> u_clear s
      | (Flush, _) \<Rightarrow> u_flush e s
      | (Find, FindArgs ctr i) \<Rightarrow> u_find e ctr i s
      | (Fetch, FetchArgs obj paths) \<Rightarrow> u_fetch e obj paths s
      | _ \<Rightarrow> (s, NeverCalled))"

text \<open>
  The public operations: each is one call of \<open>this._queue.add(action, invalidates, arg,
  callback)\<close>. The task queue is not among the sources; it runs a task by calling
  \<open>_execute(action, arg, callback)\<close>, the delegate the constructor hands it.
\<close>

record task =
  action :: Action
  invalidates :: "32 word"
  arg :: args

definition save :: "oid \<Rightarrow> task" where
  "save obj = \<lparr>action = Save, invalidates = Action_All AND NOT (Action_bit Save), arg = ObjArg obj\<rparr>"

definition remove_s :: "oid \<Rightarrow> task" where
  "remove_s obj =
     \<lparr>action = Remove, invalidates = Action_All AND NOT (Action_bit Remove), arg = ObjArg obj\<rparr>"

definition refresh :: "oid \<Rightarrow> task" where
  "refresh obj =
     \<lparr>action = Refresh, invalidates = Action_All AND NOT (Action_bit Refresh), arg = ObjArg obj\<rparr>"

definition detach :: "oid \<Rightarrow> task" where
  "detach obj =
     \<lparr>action = Detach, invalidates = Action_All AND NOT (Action_bit Detach), arg = ObjArg obj\<rparr>"

definition clear :: task where
  "clear = \<lparr>action = Clear, invalidates = Action_All, arg = NoArg\<rparr>"

definition flush :: task where
  "flush = \<lparr>action = Flush, invalidates = Action_All, arg = NoArg\<rparr>"

definition find_s :: "nat \<Rightarrow> id_arg \<Rightarrow> task" where
  "find_s ctr i =
     \<lparr>action = Find, invalidates = Action_All AND NOT (Action_bit Find OR Action_bit Fetch),
      arg = FindArgs ctr i\<rparr>"

text \<open>The second argument of \<open>fetch\<close>: the callback, one path, or the paths (if any).\<close>

datatype pathsOrCallback = IsFunction | IsString string | IsPaths "string list option"

definition fetch :: "target \<Rightarrow> pathsOrCallback \<Rightarrow> task" where
  "fetch obj pc =
     \<lparr>action = Fetch, invalidates = Action_All AND NOT (Action_bit Find OR Action_bit Fetch),
      arg = FetchArgs obj
              (case pc of IsFunction \<Rightarrow> None | IsString p \<Rightarrow> Some [p] | IsPaths ps \<Rightarrow> ps)\<rparr>"

text \<open>Running a task: what the queue's call of \<open>_execute\<close> does to the session.\<close>

definition run :: "env \<Rightarrow> task \<Rightarrow> session \<Rightarrow> session \<times> completion" where
  "run e t s = u_execute e (action t) (arg t) s"

text \<open>
  A task excludes an action when the action's bit is set in the task's \<open>invalidates\<close>
  mask.
\<close>

definition excludes :: "task \<Rightarrow> Action \<Rightarrow> bool" where
  "excludes t a \<longleftrightarrow> invalidates t AND Action_bit a \<noteq> 0"

section \<open>Predicates and functions of the statements\<close>

text \<open>
  The consistency of a session: the keys of the table are distinct, every link is stored
  under the identifier of its entity, and a link is Removed exactly when a delete is
  scheduled for it. It holds in a new session and every operation keeps it.
\<close>

definition consistent :: "session \<Rightarrow> bool" where
  "consistent s \<longleftrightarrow>
     distinct (map fst (objectLinks s))
     \<and> (\<forall>(k, links) \<in> set (objectLinks s).
          id_attr s (object links) = Some k
          \<and> (state links = Removed \<longleftrightarrow> scheduledOperation links = Delete))"

text \<open>The table without the snapshots: keys, states, scheduled operations, entities.\<close>

definition skeleton :: "(ident \<times> ObjectLinks) list \<Rightarrow> (ident \<times> ObjectLinks) list" where
  "skeleton list = map (\<lambda>(k, links). (k, links\<lparr>originalDocument := None\<rparr>)) list"

text \<open>
  The flush plan in the words of the spec: what the persister answers for a link in the
  dirty-check pass and in the insert pass, and the link after the pass that applies to
  it.
\<close>

definition dirtyChecked :: "env \<Rightarrow> ObjectLinks \<Rightarrow> DirtyCheckResult" where
  "dirtyChecked e links = p_dirtyCheck e (persister links) (object links) (originalDocument links)"

definition inserted :: "env \<Rightarrow> ObjectLinks \<Rightarrow> Result" where
  "inserted e links = p_insert e (persister links) (object links)"

definition flushed :: "env \<Rightarrow> ObjectLinks \<Rightarrow> ObjectLinks" where
  "flushed e links =
     (if needsDirtyCheck links then links\<lparr>originalDocument := res_value (dirtyChecked e links)\<rparr>
      else if scheduledOperation links = Insert
      then links\<lparr>originalDocument := res_value (inserted e links)\<rparr>
      else links)"

text \<open>
  What the loop after a successful execution of the batch leaves of a list of links, and
  the entities of the links it unlinks.
\<close>

abbreviation cleared :: "(ident \<times> ObjectLinks) list \<Rightarrow> (ident \<times> ObjectLinks) list" where
  "cleared list \<equiv>
     map (\<lambda>(k, l). (k, l\<lparr>scheduledOperation := OpNone\<rparr>))
       (filter (\<lambda>(k, l). scheduledOperation l \<noteq> Delete) list)"

abbreviation deletedEntities :: "(ident \<times> ObjectLinks) list \<Rightarrow> oid set" where
  "deletedEntities list \<equiv>
     (object \<circ> snd) ` set (filter (\<lambda>x. scheduledOperation (snd x) = Delete) list)"

text \<open>A link after the dirty-check pass, and after the insert pass.\<close>

definition afterDirtyCheck :: "env \<Rightarrow> ObjectLinks \<Rightarrow> ObjectLinks" where
  "afterDirtyCheck e l =
     (if needsDirtyCheck l then l\<lparr>originalDocument := res_value (dirtyChecked e l)\<rparr> else l)"

definition afterInsert :: "env \<Rightarrow> ObjectLinks \<Rightarrow> ObjectLinks" where
  "afterInsert e l =
     (if scheduledOperation l = Insert then l\<lparr>originalDocument := res_value (inserted e l)\<rparr> else l)"

text \<open>The entity \<open>n\<close> is linked, Managed, with an insert scheduled, under its identifier.\<close>

definition newlyLinked :: "session \<Rightarrow> oid \<Rightarrow> bool" where
  "newlyLinked s n \<longleftrightarrow>
     (case id_attr s n of
        None \<Rightarrow> False
      | Some g \<Rightarrow>
          (case map_of (objectLinks s) g of
             None \<Rightarrow> False
           | Some l \<Rightarrow> state l = Managed \<and> scheduledOperation l = Insert \<and> object l = n))"

text \<open>The entity an operation of the batch is about.\<close>

fun op_entity :: "batch_op \<Rightarrow> oid" where
  "op_entity (UpdateOp obj) = obj"
| "op_entity (InsertOp obj) = obj"
| "op_entity (DeleteOp obj) = obj"

text \<open>
  The sessions reachable through the public operations: a new session (empty tables, in
  any world), and what running a task leaves, whatever the collaborators answer.
\<close>

inductive reachable :: "session \<Rightarrow> bool" where
  new: "objectLinks s = [] \<Longrightarrow> persisterByMapping s = (\<lambda>m. None) \<Longrightarrow> reachable s"
| step: "reachable s \<Longrightarrow> reachable (fst (run e t s))"

section \<open>Concrete collaborators and sessions\<close>

text \<open>
  One mapping (0) for every type, with deferred-implicit change tracking; a batch whose
  execution reports \<open>batch_result\<close>; a walker that reaches only the entity itself; a
  reference that loads entity 5.
\<close>

definition persister0 :: Persister where
  "persister0 = \<lparr>mappingId = 0, changeTracking = DeferredImplicit\<rparr>"

definition env0 :: "error option \<Rightarrow> env" where
  "env0 batch_result =
     \<lparr>getMappingForObject = (\<lambda>obj. Some 0),
      getMappingForConstructor = (\<lambda>ctr. Some 0),
      createPersister = (\<lambda>m. \<lparr>mappingId = m, changeTracking = DeferredImplicit\<rparr>),
      identity_generate = (\<lambda>m n. key (''new'' @ replicate n (CHR ''x''))),
      identity_fromString = (\<lambda>m str. key str),
      p_dirtyCheck = (\<lambda>p obj d. \<lparr>res_value = Some 1, res_error = None, dc_dirty = True\<rparr>),
      p_insert = (\<lambda>p obj. \<lparr>res_value = Some 2, res_error = None\<rparr>),
      p_findOneById = (\<lambda>p k s. \<lparr>registered = [], outcome = Inr None\<rparr>),
      batch_execute = (\<lambda>b. batch_result),
      mapping_walk = (\<lambda>m obj flags s. \<lparr>registered = [], outcome = Inr [obj]\<rparr>),
      reference_fetch = (\<lambda>r s. \<lparr>registered = [(persister0, 5, 9)], outcome = Inr (Some 5)\<rparr>)\<rparr>"

text \<open>
  A new session in a world where entity 3 carries the identifier \<open>c\<close> and entity 5 the
  identifier \<open>b\<close> (set by hand, or by the persister that built the entity), and no
  other entity has an \<open>_id\<close>.
\<close>

definition session0 :: session where
  "session0 =
     \<lparr>objectLinks = [],
      persisterByMapping = (\<lambda>m. None),
      id_attr = (\<lambda>obj. if obj = 3 then Some (key ''c'') else if obj = 5 then Some (key ''b'') else None),
      generated = 0\<rparr>"

text \<open>The same collaborators, with a reference that loads entity 3.\<close>

definition env1 :: env where
  "env1 = (env0 None)
     \<lparr>reference_fetch := (\<lambda>r s. \<lparr>registered = [(persister0, 3, 4)], outcome = Inr (Some 3)\<rparr>)\<rparr>"

text \<open>
  A session with three links: entity 5 loaded and then removed, entity 1 saved and not
  yet flushed, entity 3 loaded. It is the session that fetching a reference to entity 5,
  saving entity 1, fetching a reference to entity 3 and removing entity 5 leave of
  \<open>session0\<close>.
\<close>

definition session1 :: session where
  "session1 =
     \<lparr>objectLinks =
        [(key ''b'', \<lparr>state = Removed, scheduledOperation = Delete, object = 5,
                  originalDocument = Some 9, persister = persister0\<rparr>),
         (key ''new'', \<lparr>state = Managed, scheduledOperation = Insert, object = 1,
                    originalDocument = None, persister = persister0\<rparr>),
         (key ''c'', \<lparr>state = Managed, scheduledOperation = OpNone, object = 3,
                  originalDocument = Some 4, persister = persister0\<rparr>)],
      persisterByMapping = (\<lambda>m. if m = 0 then Some persister0 else None),
      id_attr = (\<lambda>obj. if obj = 1 then Some (key ''new'') else if obj = 3 then Some (key ''c'')
                       else if obj = 5 then Some (key ''b'') else None),
      generated = 1\<rparr>"

text \<open>
  The collaborators of \<open>env0\<close>, with a persister for which the current document of every
  entity is 1: its dirty check reports a change exactly when the original document it is
  given is another one.
\<close>

definition env2 :: "error option \<Rightarrow> env" where
  "env2 batch_result = (env0 batch_result)
     \<lparr>p_dirtyCheck := (\<lambda>p obj d. \<lparr>res_value = Some 1, res_error = None, dc_dirty = (d \<noteq> Some 1)\<rparr>)\<rparr>"

section \<open>Identifiers\<close>

text \<open>Two plain keys are the same identifier exactly when they are the same string.\<close>

lemma key_eq_iff [simp]:
  assumes "plainKey x" and "plainKey y"
  shows "key x = key y \<longleftrightarrow> x = y"
  using assms by (simp add: key_def Abs_ident_inject)

lemma plainKey_letter [simp]: "plainKey [CHR ''b'']" "plainKey [CHR ''c'']"
  by (simp_all add: plainKey_def digitsOnly_def prototypeNames_def)

lemma plainKey_new [simp]: "plainKey (CHR ''n'' # CHR ''e'' # CHR ''w'' # ks)"
  by (simp add: plainKey_def digitsOnly_def prototypeNames_def)

section \<open>Dispatch of the public operations\<close>

text \<open>
  C1. \<open>refresh\<close> enqueues a task with action Refresh, and \<open>_execute\<close> has no case for
  that action: running the task changes nothing in the session and never calls the
  callback. (\<open>_refresh\<close> and \<open>_refreshEntities\<close> are defined in the source and called
  from nowhere.)
\<close>

theorem refresh_is_not_dispatched: "run e (refresh obj) s = (s, NeverCalled)"
  by (simp add: run_def refresh_def u_execute_def)

text \<open>
  C8, as the code has it. Save, Remove, Refresh and Detach exclude every action but
  themselves; Flush and Clear exclude every action; Find and Fetch exclude every action
  but Find and Fetch, so that neither excludes itself or the other.
\<close>

theorem invalidates_masks:
  "(\<forall>a. excludes (save obj) a \<longleftrightarrow> a \<noteq> Save)
   \<and> (\<forall>a. excludes (remove_s obj) a \<longleftrightarrow> a \<noteq> Remove)
   \<and> (\<forall>a. excludes (refresh obj) a \<longleftrightarrow> a \<noteq> Refresh)
   \<and> (\<forall>a. excludes (detach obj) a \<longleftrightarrow> a \<noteq> Detach)
   \<and> (\<forall>a. excludes flush a)
   \<and> (\<forall>a. excludes clear a)
   \<and> (\<forall>a. excludes (find_s ctr i) a \<longleftrightarrow> a \<noteq> Find \<and> a \<noteq> Fetch)
   \<and> (\<forall>a. excludes (fetch t pc) a \<longleftrightarrow> a \<noteq> Find \<and> a \<noteq> Fetch)"
proof -
  have "excludes (save obj) a \<longleftrightarrow> a \<noteq> Save" for a
    by (cases a) (simp_all add: excludes_def save_def Action_All_def)
  moreover have "excludes (remove_s obj) a \<longleftrightarrow> a \<noteq> Remove" for a
    by (cases a) (simp_all add: excludes_def remove_s_def Action_All_def)
  moreover have "excludes (refresh obj) a \<longleftrightarrow> a \<noteq> Refresh" for a
    by (cases a) (simp_all add: excludes_def refresh_def Action_All_def)
  moreover have "excludes (detach obj) a \<longleftrightarrow> a \<noteq> Detach" for a
    by (cases a) (simp_all add: excludes_def detach_def Action_All_def)
  moreover have "excludes flush a" for a
    by (cases a) (simp_all add: excludes_def flush_def Action_All_def)
  moreover have "excludes clear a" for a
    by (cases a) (simp_all add: excludes_def clear_def Action_All_def)
  moreover have "excludes (find_s ctr i) a \<longleftrightarrow> a \<noteq> Find \<and> a \<noteq> Fetch" for a
    by (cases a) (simp_all add: excludes_def find_s_def Action_All_def)
  moreover have "excludes (fetch t pc) a \<longleftrightarrow> a \<noteq> Find \<and> a \<noteq> Fetch" for a
    by (cases a) (simp_all add: excludes_def fetch_def Action_All_def)
  ultimately show ?thesis by blast
qed

text \<open>
  C8, as the claim states it, fails: a Find task does not exclude the action Find (two
  finds may run together), so Find does not exclude all actions.
\<close>

theorem find_excludes_all_counterexample: "\<not> excludes (find_s 0 (IdString ''5'')) Find"
  by (simp add: excludes_def find_s_def Action_All_def)

text \<open>
  C9. A fetch with a non-empty array of paths: for an entity the session is left as it
  is, for a reference whose resolution succeeds it is left as the resolution leaves it,
  and in both cases the callback is never called.
\<close>

theorem fetch_with_paths_never_completes:
  assumes "paths \<noteq> []"
  shows "run e (fetch (Entity ent) (IsPaths (Some paths))) s = (s, NeverCalled)
         \<and> (collaborate (reference_fetch e r s) s = (s1, Inr (Inr entity))
              \<longrightarrow> run e (fetch (Ref r) (IsPaths (Some paths))) s = (s1, NeverCalled))"
  using assms by (simp add: run_def fetch_def u_execute_def u_fetch_def u_fetchPaths_def)

theorem fetch_with_paths_never_completes_witness:
  "[''children''] \<noteq> []
   \<and> run (env0 None) (fetch (Entity 5) (IsPaths (Some [''children'']))) session0
       = (session0, NeverCalled)
   \<and> snd (run (env0 None) (fetch (Ref \<lparr>ref_mapping = Some 0, ref_id = IdValue (key ''b'')\<rparr>)
              (IsPaths (Some [''children'']))) session0) = NeverCalled
   \<and> map fst (objectLinks (fst (run (env0 None)
              (fetch (Ref \<lparr>ref_mapping = Some 0, ref_id = IdValue (key ''b'')\<rparr>)
                 (IsPaths (Some [''children'']))) session0))) = [key ''b'']"
proof -
  have c: "collaborate (reference_fetch (env0 None) \<lparr>ref_mapping = Some 0, ref_id = IdValue (key ''b'')\<rparr> session0)
             session0
           = (setLink (key ''b'') (\<lambda>l. l\<lparr>originalDocument := Some 9\<rparr>)
                (session0\<lparr>objectLinks :=
                   [(key ''b'', \<lparr>state = Managed, scheduledOperation = OpNone, object = 5,
                             originalDocument = None, persister = persister0\<rparr>)]\<rparr>),
              Inr (Inr (Some 5)))"
    by (simp add: collaborate_def env0_def registerManaged_def u_linkObject_def session0_def
          setLink_def Let_def)
  show ?thesis
    using fetch_with_paths_never_completes [of "[''children'']" "env0 None" 5 session0]
      fetch_with_paths_never_completes [of "[''children'']" "env0 None" _ session0
        "\<lparr>ref_mapping = Some 0, ref_id = IdValue (key ''b'')\<rparr>" _ "Some 5"] c
    by (simp add: setLink_def)
qed

section \<open>Flush: the passes, failure and reconciliation\<close>

lemma skeleton_Nil [simp]: "skeleton [] = []" by (simp add: skeleton_def)
lemma skeleton_Cons [simp]: "skeleton ((k, l) # rest) = (k, l\<lparr>originalDocument := None\<rparr>) # skeleton rest"
  by (simp add: skeleton_def)

lemma dirtyCheckPass_skeleton:
  "dirtyCheckPass e list b = (list1, b1, r) \<Longrightarrow> skeleton list1 = skeleton list"
proof (induction list arbitrary: b list1 b1 r)
  case Nil then show ?case by simp
next
  case (Cons a list)
  obtain k l where a: "a = (k, l)" by (cases a)
  show ?case using Cons.prems Cons.IH unfolding a
    by (auto simp: Let_def split: if_splits option.splits prod.splits)
qed

lemma insertPass_skeleton:
  "insertPass e list b = (list1, b1, r) \<Longrightarrow> skeleton list1 = skeleton list"
proof (induction list arbitrary: b list1 b1 r)
  case Nil then show ?case by simp
next
  case (Cons a list)
  obtain k l where a: "a = (k, l)" by (cases a)
  show ?case using Cons.prems Cons.IH unfolding a
    by (auto simp: Let_def split: if_splits option.splits prod.splits)
qed

lemma assemble_skeleton:
  "assemble e s = (list1, b1, r) \<Longrightarrow> skeleton list1 = skeleton (objectLinks s)"
  by (auto simp: assemble_def split: prod.splits option.splits
      dest!: dirtyCheckPass_skeleton insertPass_skeleton)

lemma dirtyCheckPass_ok:
  "dirtyCheckPass e list b = (list1, b1, None) \<Longrightarrow>
     b1 = b @ map (UpdateOp \<circ> object) (filter (\<lambda>l. needsDirtyCheck l \<and> dc_dirty (dirtyChecked e l)) (map snd list))
     \<and> list1 = map (\<lambda>(k, l). (k, if needsDirtyCheck l then l\<lparr>originalDocument := res_value (dirtyChecked e l)\<rparr> else l)) list"
proof (induction list arbitrary: b list1 b1)
  case Nil then show ?case by simp
next
  case (Cons a list)
  obtain k l where a: "a = (k, l)" by (cases a)
  show ?case using Cons.prems unfolding a
    by (auto simp: Let_def dirtyChecked_def split: if_splits option.splits prod.splits dest!: Cons.IH)
qed

lemma insertPass_ok:
  "insertPass e list b = (list1, b1, None) \<Longrightarrow>
     b1 = b @ map (InsertOp \<circ> object) (filter (\<lambda>l. scheduledOperation l = Insert) (map snd list))
     \<and> list1 = map (\<lambda>(k, l). (k, if scheduledOperation l = Insert then l\<lparr>originalDocument := res_value (inserted e l)\<rparr> else l)) list"
proof (induction list arbitrary: b list1 b1)
  case Nil then show ?case by simp
next
  case (Cons a list)
  obtain k l where a: "a = (k, l)" by (cases a)
  show ?case using Cons.prems unfolding a
    by (auto simp: Let_def inserted_def split: if_splits option.splits prod.splits dest!: Cons.IH)
qed

lemma deletePass_eq:
  "deletePass list b = b @ map (DeleteOp \<circ> object) (filter (\<lambda>l. scheduledOperation l = Delete) (map snd list))"
proof (induction list arbitrary: b)
  case Nil then show ?case by simp
next
  case (Cons a list)
  obtain k l where a: "a = (k, l)" by (cases a)
  show ?case using Cons.IH unfolding a by simp
qed


lemma delete_append_absent:
  "k \<notin> fst ` set pre \<Longrightarrow> AList.delete k (pre @ rest) = pre @ AList.delete k rest"
  by (induction pre) auto

lemma map_entry_absent: "k \<notin> fst ` set xs \<Longrightarrow> AList.map_entry k f xs = xs"
  by (induction xs) auto

lemma map_entry_append_absent:
  "k \<notin> fst ` set pre \<Longrightarrow> AList.map_entry k f (pre @ rest) = pre @ AList.map_entry k f rest"
  by (induction pre) auto

lemma reconcile_consistent:
  assumes "objectLinks s = pre @ rest"
    and "distinct (map fst (pre @ rest))"
    and "\<forall>(k, l) \<in> set (pre @ rest). id_attr s (object l) = Some k"
    and "\<forall>(k, l) \<in> set rest. scheduledOperation l = Delete \<longrightarrow> state l = Removed"
  shows "\<exists>s'. reconcile rest s = (s', None)
      \<and> objectLinks s' = pre @ cleared rest
      \<and> id_attr s' = (\<lambda>obj. if obj \<in> deletedEntities rest
                              then None else id_attr s obj)
      \<and> persisterByMapping s' = persisterByMapping s \<and> generated s' = generated s"
  using assms
proof (induction rest arbitrary: pre s)
  case Nil
  then show ?case by simp
next
  case (Cons a rest)
  obtain k l where a: "a = (k, l)" by (cases a)
  have kd: "k \<notin> fst ` set pre" and kr: "k \<notin> fst ` set rest"
    using Cons.prems(2) unfolding a by auto
  have idl: "id_attr s (object l) = Some k" using Cons.prems(3) unfolding a by auto
  show ?case
  proof (cases "scheduledOperation l = Delete")
    case True
    then have rem: "state l = Removed" using Cons.prems(4) unfolding a by auto
    define s1 where "s1 = s\<lparr>objectLinks := pre @ rest, id_attr := (id_attr s)(object l := None)\<rparr>"
    have un: "u_unlinkObject l s = Inr s1"
      using idl rem kd kr Cons.prems(1) unfolding a
      by (simp add: u_unlinkObject_def Let_def s1_def delete_append_absent)
    have "k \<notin> fst ` set (pre @ rest)" using kd kr by auto
    then have set1: "setLink k (\<lambda>l. l\<lparr>scheduledOperation := OpNone\<rparr>) s1 = s1"
      by (simp add: setLink_def s1_def map_entry_absent del: set_append)
    have other: "\<forall>(k', l') \<in> set (pre @ rest). id_attr s1 (object l') = Some k'"
    proof (clarify)
      fix k' l' assume m: "(k', l') \<in> set (pre @ rest)"
      then have "id_attr s (object l') = Some k'" using Cons.prems(3) unfolding a by auto
      moreover have "k' \<noteq> k" using m kd kr by force
      ultimately have "object l' \<noteq> object l" using idl by auto
      then show "id_attr s1 (object l') = Some k'"
        using \<open>id_attr s (object l') = Some k'\<close> by (simp add: s1_def)
    qed
    have "\<exists>s'. reconcile rest s1 = (s', None)
      \<and> objectLinks s' = pre @ cleared rest
      \<and> id_attr s' = (\<lambda>obj. if obj \<in> deletedEntities rest
                              then None else id_attr s1 obj)
      \<and> persisterByMapping s' = persisterByMapping s1 \<and> generated s' = generated s1"
      apply (rule Cons.IH)
      using Cons.prems other unfolding a by (auto simp: s1_def)
    then obtain s' where s': "reconcile rest s1 = (s', None)"
      "objectLinks s' = pre @ cleared rest"
      "id_attr s' = (\<lambda>obj. if obj \<in> deletedEntities rest
                              then None else id_attr s1 obj)"
      "persisterByMapping s' = persisterByMapping s1" "generated s' = generated s1"
      by blast
    have "reconcile (a # rest) s = (s', None)"
      unfolding a using True un set1 s'(1) by simp
    moreover have "id_attr s' = (\<lambda>obj. if obj \<in> deletedEntities (a # rest)
                              then None else id_attr s obj)"
    proof -
      have "deletedEntities (a # rest)
            = insert (object l) (deletedEntities rest)"
        unfolding a using True by auto
      then show ?thesis unfolding s'(3) by (auto simp: s1_def fun_eq_iff)
    qed
    ultimately show ?thesis
      using s'(2,4,5) True unfolding a by (simp add: s1_def)
  next
    case False
    define s1 where "s1 = s\<lparr>objectLinks := (pre @ [(k, l\<lparr>scheduledOperation := OpNone\<rparr>)]) @ rest\<rparr>"
    have set1: "setLink k (\<lambda>l. l\<lparr>scheduledOperation := OpNone\<rparr>) s = s1"
      using kd Cons.prems(1) unfolding a by (simp add: setLink_def s1_def map_entry_append_absent)
    have "\<exists>s'. reconcile rest s1 = (s', None)
      \<and> objectLinks s' = (pre @ [(k, l\<lparr>scheduledOperation := OpNone\<rparr>)]) @ cleared rest
      \<and> id_attr s' = (\<lambda>obj. if obj \<in> deletedEntities rest
                              then None else id_attr s1 obj)
      \<and> persisterByMapping s' = persisterByMapping s1 \<and> generated s' = generated s1"
      apply (rule Cons.IH)
      using Cons.prems unfolding a by (auto simp: s1_def)
    then obtain s' where s': "reconcile rest s1 = (s', None)"
      "objectLinks s' = (pre @ [(k, l\<lparr>scheduledOperation := OpNone\<rparr>)]) @ cleared rest"
      "id_attr s' = (\<lambda>obj. if obj \<in> deletedEntities rest
                              then None else id_attr s1 obj)"
      "persisterByMapping s' = persisterByMapping s1" "generated s' = generated s1"
      by blast
    have "reconcile (a # rest) s = (s', None)"
      unfolding a using False set1 s'(1) by simp
    moreover have "id_attr s' = (\<lambda>obj. if obj \<in> deletedEntities (a # rest)
                              then None else id_attr s obj)"
    proof -
      have "deletedEntities (a # rest)
            = deletedEntities rest"
        unfolding a using False by auto
      then show ?thesis unfolding s'(3) by (auto simp: s1_def fun_eq_iff)
    qed
    ultimately show ?thesis
      using s'(2,4,5) False unfolding a by (simp add: s1_def)
  qed
qed


lemma skeleton_keys: "map fst (skeleton a) = map fst a"
  by (induction a) auto

lemma skeleton_ops: "map (scheduledOperation \<circ> snd) (skeleton a) = map (scheduledOperation \<circ> snd) a"
  by (induction a) auto

lemma skeleton_states: "map (state \<circ> snd) (skeleton a) = map (state \<circ> snd) a"
  by (induction a) auto

lemma skeleton_objects: "map (object \<circ> snd) (skeleton a) = map (object \<circ> snd) a"
  by (induction a) auto

lemma skeleton_mem:
  "skeleton a = skeleton b \<Longrightarrow> (k, l) \<in> set a \<Longrightarrow>
     \<exists>l'. (k, l') \<in> set b \<and> state l' = state l \<and> scheduledOperation l' = scheduledOperation l
          \<and> object l' = object l \<and> persister l' = persister l"
proof (induction a arbitrary: b)
  case Nil then show ?case by simp
next
  case (Cons x a)
  obtain y b' where b: "b = y # b'" using Cons.prems(1) by (cases b) (auto simp: skeleton_def)
  obtain kx lx where x: "x = (kx, lx)" by (cases x)
  obtain ky ly where y: "y = (ky, ly)" by (cases y)
  have hd: "kx = ky" "lx\<lparr>originalDocument := None\<rparr> = ly\<lparr>originalDocument := None\<rparr>"
    and tl: "skeleton a = skeleton b'"
    using Cons.prems(1) unfolding b x y by auto
  have same: "state ly = state lx \<and> scheduledOperation ly = scheduledOperation lx
          \<and> object ly = object lx \<and> persister ly = persister lx"
    using hd(2) by (cases lx, cases ly) auto
  show ?case
  proof (cases "(k, l) = x")
    case True
    then show ?thesis using same hd(1) unfolding b x y by auto
  next
    case False
    then have "(k, l) \<in> set a" using Cons.prems(2) by auto
    from Cons.IH[OF tl this] show ?thesis unfolding b by auto
  qed
qed

lemma consistent_skeleton:
  assumes "consistent s" and "skeleton a = skeleton (objectLinks s)"
  shows "consistent (s\<lparr>objectLinks := a\<rparr>)"
proof -
  have "distinct (map fst a)"
    using assms skeleton_keys[of a] skeleton_keys[of "objectLinks s"] by (simp add: consistent_def)
  moreover have "id_attr s (object l) = Some k \<and> (state l = Removed \<longleftrightarrow> scheduledOperation l = Delete)"
    if m: "(k, l) \<in> set a" for k l
  proof -
    obtain l' where "(k, l') \<in> set (objectLinks s)" "state l' = state l"
      "scheduledOperation l' = scheduledOperation l" "object l' = object l"
      using skeleton_mem[OF assms(2) m] by blast
    then show ?thesis using assms(1) by (auto simp: consistent_def)
  qed
  ultimately show ?thesis by (auto simp: consistent_def)
qed

lemma flush_success:
  assumes "consistent s" and "u_flush e s = (s', Success r)"
  shows "\<exists>list batch. assemble e s = (list, batch, None) \<and> batch_execute e batch = None
     \<and> objectLinks s' = cleared list
     \<and> id_attr s' = (\<lambda>obj. if obj \<in> deletedEntities list
                              then None else id_attr s obj)
     \<and> persisterByMapping s' = persisterByMapping s \<and> generated s' = generated s"
proof -
  obtain list batch where asm: "assemble e s = (list, batch, None)"
    and ex: "batch_execute e batch = None"
    and rec: "reconcile list (s\<lparr>objectLinks := list\<rparr>) = (s', None)"
    using assms(2) by (auto simp: u_flush_def split: prod.splits option.splits)
  have w: "consistent (s\<lparr>objectLinks := list\<rparr>)"
    using consistent_skeleton[OF assms(1) assemble_skeleton[OF asm]] .
  have "\<exists>s''. reconcile list (s\<lparr>objectLinks := list\<rparr>) = (s'', None)
      \<and> objectLinks s'' = [] @ cleared list
      \<and> id_attr s'' = (\<lambda>obj. if obj \<in> deletedEntities list
                              then None else id_attr (s\<lparr>objectLinks := list\<rparr>) obj)
      \<and> persisterByMapping s'' = persisterByMapping (s\<lparr>objectLinks := list\<rparr>)
      \<and> generated s'' = generated (s\<lparr>objectLinks := list\<rparr>)"
    by (rule reconcile_consistent) (use w in \<open>auto simp: consistent_def\<close>)
  then show ?thesis using rec asm ex by auto
qed

text \<open>
  C3. After a flush of a consistent session that calls its callback without error, every
  link left in the table has no scheduled operation, and every link that had a delete
  scheduled is gone from the table and its entity has no \<open>_id\<close> any more.
\<close>

theorem successful_flush_reconciles:
  assumes "consistent s" and "u_flush e s = (s', Success r)"
  shows "(\<forall>(k, l) \<in> set (objectLinks s'). scheduledOperation l = OpNone)
       \<and> (\<forall>(k, l) \<in> set (objectLinks s). scheduledOperation l = Delete \<longrightarrow>
             map_of (objectLinks s') k = None \<and> id_attr s' (object l) = None)"
proof -
  obtain list batch where asm: "assemble e s = (list, batch, None)"
    and links: "objectLinks s' = cleared list"
    and ids: "id_attr s' = (\<lambda>obj. if obj \<in> deletedEntities list
                              then None else id_attr s obj)"
    using flush_success[OF assms] by blast
  have sk: "skeleton (objectLinks s) = skeleton list" using assemble_skeleton[OF asm] by simp
  have dist: "distinct (map fst list)"
    using assms(1) skeleton_keys[of list] skeleton_keys[of "objectLinks s"] sk by (simp add: consistent_def)
  have first: "\<forall>(k, l) \<in> set (objectLinks s'). scheduledOperation l = OpNone"
    unfolding links by auto
  have second: "map_of (objectLinks s') k = None \<and> id_attr s' (object l) = None"
    if m: "(k, l) \<in> set (objectLinks s)" and d: "scheduledOperation l = Delete" for k l
  proof -
    obtain l' where l': "(k, l') \<in> set list" "scheduledOperation l' = scheduledOperation l"
      "object l' = object l"
      using skeleton_mem[OF sk m] by blast
    have "k \<notin> fst ` set (objectLinks s')"
    proof
      assume "k \<in> fst ` set (objectLinks s')"
      then obtain l2 where "(k, l2) \<in> set list" "scheduledOperation l2 \<noteq> Delete"
        unfolding links by auto
      then have "l2 = l'" using dist l'(1) by (meson eq_key_imp_eq_value)
      then show False using \<open>scheduledOperation l2 \<noteq> Delete\<close> l'(2) d by simp
    qed
    then have "map_of (objectLinks s') k = None" by (simp add: map_of_eq_None_iff)
    moreover have "object l \<in> deletedEntities list"
      using l' d by force
    ultimately show ?thesis unfolding ids by simp
  qed
  show ?thesis using first second by blast
qed


lemmas flush_eval = u_flush_def assemble_def env0_def needsDirtyCheck_def persister0_def Let_def
  u_unlinkObject_def setLink_def

lemma session1_flush:
  "u_flush (env0 None) session1 =
     (session1\<lparr>objectLinks :=
         [(key ''new'', \<lparr>state = Managed, scheduledOperation = OpNone, object = 1,
                    originalDocument = Some 2, persister = persister0\<rparr>),
          (key ''c'', \<lparr>state = Managed, scheduledOperation = OpNone, object = 3,
                  originalDocument = Some 1, persister = persister0\<rparr>)],
        id_attr := (id_attr session1)(5 := None)\<rparr>, Success None)"
  by (simp add: flush_eval session1_def)

theorem successful_flush_reconciles_witness:
  "consistent session1
   \<and> snd (u_flush (env0 None) session1) = Success None
   \<and> map (scheduledOperation \<circ> snd) (objectLinks session1) = [Delete, Insert, OpNone]
   \<and> map (scheduledOperation \<circ> snd) (objectLinks (fst (u_flush (env0 None) session1))) = [OpNone, OpNone]
   \<and> map_of (objectLinks (fst (u_flush (env0 None) session1))) (key ''b'') = None
   \<and> id_attr (fst (u_flush (env0 None) session1)) 5 = None"
proof -
  have c: "consistent session1" by (simp add: consistent_def session1_def)
  have f: "u_flush (env0 None) session1 = (fst (u_flush (env0 None) session1), Success None)"
    by (simp add: session1_flush)
  have m: "(key ''b'', \<lparr>state = Removed, scheduledOperation = Delete, object = 5,
                  originalDocument = Some 9, persister = persister0\<rparr>) \<in> set (objectLinks session1)"
    by (simp add: session1_def)
  from successful_flush_reconciles [OF c f] m
  have "map_of (objectLinks (fst (u_flush (env0 None) session1))) (key ''b'') = None"
    and "id_attr (fst (u_flush (env0 None) session1)) 5 = None"
    by fastforce+
  then show ?thesis using c by (simp add: session1_flush) (simp add: session1_def)
qed


lemma afterDirtyCheck_fields [simp]:
  "scheduledOperation (afterDirtyCheck e l) = scheduledOperation l"
  "object (afterDirtyCheck e l) = object l"
  "persister (afterDirtyCheck e l) = persister l"
  by (simp_all add: afterDirtyCheck_def)

lemma afterInsert_fields [simp]:
  "scheduledOperation (afterInsert e l) = scheduledOperation l"
  "object (afterInsert e l) = object l"
  by (simp_all add: afterInsert_def)

lemma afterInsert_afterDirtyCheck: "afterInsert e (afterDirtyCheck e l) = flushed e l"
  by (auto simp: afterInsert_def afterDirtyCheck_def flushed_def inserted_def needsDirtyCheck_def)

lemma ops_of_kind_map:
  assumes "\<And>l. scheduledOperation (f l) = scheduledOperation l" and "\<And>l. object (f l) = object l"
  shows "map (mk \<circ> object) (filter (\<lambda>l. scheduledOperation l = kind) (map snd (map (\<lambda>(k, l). (k, f l)) xs)))
       = map (mk \<circ> object) (filter (\<lambda>l. scheduledOperation l = kind) (map snd xs))"
  by (induction xs) (auto simp: assms)

text \<open>
  C4. When no persister reports an error, the batch that flush assembles is the updates
  of the dirty-check pass (one for each link that needs a dirty check and is found dirty),
  then one insert for every link with an insert scheduled, then one delete for every link
  with a delete scheduled, each pass in the order of the table at flush entry; and the
  links are left as the pass that applies to them leaves them: the snapshot the persister
  returned replaces \<open>originalDocument\<close> for exactly the links that need a dirty check
  and the links with an insert scheduled. The flush task executes this batch, once, after
  the three passes: an error of the execution is the outcome of the flush and leaves the
  table as the passes left it, and an execution without error is followed by the
  reconciliation of these links.
\<close>

theorem flush_assembles_in_three_passes:
  assumes "assemble e s = (list, batch, None)"
  shows "batch =
           map (UpdateOp \<circ> object)
             (filter (\<lambda>l. needsDirtyCheck l \<and> dc_dirty (dirtyChecked e l)) (map snd (objectLinks s)))
           @ map (InsertOp \<circ> object)
               (filter (\<lambda>l. scheduledOperation l = Insert) (map snd (objectLinks s)))
           @ map (DeleteOp \<circ> object)
               (filter (\<lambda>l. scheduledOperation l = Delete) (map snd (objectLinks s)))
         \<and> list = map (\<lambda>(k, l). (k, flushed e l)) (objectLinks s)
         \<and> run e flush s =
             (case batch_execute e batch of
                Some err \<Rightarrow> (s\<lparr>objectLinks := list\<rparr>, Failure err)
              | None \<Rightarrow>
                  (case reconcile list (s\<lparr>objectLinks := list\<rparr>) of
                     (s1, Some x) \<Rightarrow> (s1, Throws x)
                   | (s1, None) \<Rightarrow> (s1, Success None)))"
proof -
  have runs: "run e flush s =
             (case batch_execute e batch of
                Some err \<Rightarrow> (s\<lparr>objectLinks := list\<rparr>, Failure err)
              | None \<Rightarrow>
                  (case reconcile list (s\<lparr>objectLinks := list\<rparr>) of
                     (s1, Some x) \<Rightarrow> (s1, Throws x)
                   | (s1, None) \<Rightarrow> (s1, Success None)))"
    using assms by (simp add: run_def flush_def u_execute_def u_flush_def)
  obtain list1 batch1 batch2 where
    d: "dirtyCheckPass e (objectLinks s) [] = (list1, batch1, None)"
    and i: "insertPass e list1 batch1 = (list, batch2, None)"
    and b: "batch = deletePass list batch2"
    using assms by (auto simp: assemble_def split: prod.splits option.splits)
  have l1: "list1 = map (\<lambda>(k, l). (k, afterDirtyCheck e l)) (objectLinks s)"
    and b1: "batch1 = map (UpdateOp \<circ> object)
             (filter (\<lambda>l. needsDirtyCheck l \<and> dc_dirty (dirtyChecked e l)) (map snd (objectLinks s)))"
    using dirtyCheckPass_ok[OF d] by (simp_all add: afterDirtyCheck_def[abs_def])
  have l2: "list = map (\<lambda>(k, l). (k, afterInsert e l)) list1"
    and b2: "batch2 = batch1 @ map (InsertOp \<circ> object)
               (filter (\<lambda>l. scheduledOperation l = Insert) (map snd list1))"
    using insertPass_ok[OF i] by (simp_all add: afterInsert_def[abs_def])
  have "list = map (\<lambda>(k, l). (k, flushed e l)) (objectLinks s)"
    unfolding l2 l1 by (simp add: afterInsert_afterDirtyCheck split_def comp_def)
  moreover have "map (InsertOp \<circ> object) (filter (\<lambda>l. scheduledOperation l = Insert) (map snd list1))
      = map (InsertOp \<circ> object) (filter (\<lambda>l. scheduledOperation l = Insert) (map snd (objectLinks s)))"
    unfolding l1 by (rule ops_of_kind_map) simp_all
  moreover have "map (DeleteOp \<circ> object) (filter (\<lambda>l. scheduledOperation l = Delete) (map snd list))
      = map (DeleteOp \<circ> object) (filter (\<lambda>l. scheduledOperation l = Delete) (map snd (objectLinks s)))"
  proof -
    have "map (DeleteOp \<circ> object) (filter (\<lambda>l. scheduledOperation l = Delete) (map snd list))
      = map (DeleteOp \<circ> object) (filter (\<lambda>l. scheduledOperation l = Delete) (map snd list1))"
      unfolding l2 by (rule ops_of_kind_map) simp_all
    also have "\<dots> = map (DeleteOp \<circ> object) (filter (\<lambda>l. scheduledOperation l = Delete) (map snd (objectLinks s)))"
      unfolding l1 by (rule ops_of_kind_map) simp_all
    finally show ?thesis .
  qed
  ultimately have "batch =
           map (UpdateOp \<circ> object)
             (filter (\<lambda>l. needsDirtyCheck l \<and> dc_dirty (dirtyChecked e l)) (map snd (objectLinks s)))
           @ map (InsertOp \<circ> object)
               (filter (\<lambda>l. scheduledOperation l = Insert) (map snd (objectLinks s)))
           @ map (DeleteOp \<circ> object)
               (filter (\<lambda>l. scheduledOperation l = Delete) (map snd (objectLinks s)))
         \<and> list = map (\<lambda>(k, l). (k, flushed e l)) (objectLinks s)"
    unfolding b deletePass_eq b2 b1 by simp
  with runs show ?thesis by blast
qed

theorem flush_assembles_in_three_passes_witness:
  "assemble (env0 None) session1 =
     ([(key ''b'', \<lparr>state = Removed, scheduledOperation = Delete, object = 5,
                originalDocument = Some 9, persister = persister0\<rparr>),
       (key ''new'', \<lparr>state = Managed, scheduledOperation = Insert, object = 1,
                  originalDocument = Some 2, persister = persister0\<rparr>),
       (key ''c'', \<lparr>state = Managed, scheduledOperation = OpNone, object = 3,
                originalDocument = Some 1, persister = persister0\<rparr>)],
      [UpdateOp 3, InsertOp 1, DeleteOp 5], None)
   \<and> [UpdateOp 3, InsertOp 1, DeleteOp 5] =
       map (UpdateOp \<circ> object)
         (filter (\<lambda>l. needsDirtyCheck l \<and> dc_dirty (dirtyChecked (env0 None) l))
            (map snd (objectLinks session1)))
       @ map (InsertOp \<circ> object)
           (filter (\<lambda>l. scheduledOperation l = Insert) (map snd (objectLinks session1)))
       @ map (DeleteOp \<circ> object)
           (filter (\<lambda>l. scheduledOperation l = Delete) (map snd (objectLinks session1)))
   \<and> run (env0 None) flush session1 =
       (session1\<lparr>objectLinks :=
           [(key ''new'', \<lparr>state = Managed, scheduledOperation = OpNone, object = 1,
                      originalDocument = Some 2, persister = persister0\<rparr>),
            (key ''c'', \<lparr>state = Managed, scheduledOperation = OpNone, object = 3,
                    originalDocument = Some 1, persister = persister0\<rparr>)],
          id_attr := (id_attr session1)(5 := None)\<rparr>, Success None)"
proof -
  have a: "assemble (env0 None) session1 =
     ([(key ''b'', \<lparr>state = Removed, scheduledOperation = Delete, object = 5,
                originalDocument = Some 9, persister = persister0\<rparr>),
       (key ''new'', \<lparr>state = Managed, scheduledOperation = Insert, object = 1,
                  originalDocument = Some 2, persister = persister0\<rparr>),
       (key ''c'', \<lparr>state = Managed, scheduledOperation = OpNone, object = 3,
                originalDocument = Some 1, persister = persister0\<rparr>)],
      [UpdateOp 3, InsertOp 1, DeleteOp 5], None)"
    by (simp add: flush_eval session1_def)
  note three = flush_assembles_in_three_passes [OF a]
  let ?list = "[(key ''b'', \<lparr>state = Removed, scheduledOperation = Delete, object = 5,
                originalDocument = Some 9, persister = persister0\<rparr>),
       (key ''new'', \<lparr>state = Managed, scheduledOperation = Insert, object = 1,
                  originalDocument = Some 2, persister = persister0\<rparr>),
       (key ''c'', \<lparr>state = Managed, scheduledOperation = OpNone, object = 3,
                originalDocument = Some 1, persister = persister0\<rparr>)]"
  have r: "(case batch_execute (env0 None) [UpdateOp 3, InsertOp 1, DeleteOp 5] of
              Some err \<Rightarrow> (session1\<lparr>objectLinks := ?list\<rparr>, Failure err)
            | None \<Rightarrow>
                (case reconcile ?list (session1\<lparr>objectLinks := ?list\<rparr>) of
                   (s1, Some x) \<Rightarrow> (s1, Throws x)
                 | (s1, None) \<Rightarrow> (s1, Success None)))
           = (session1\<lparr>objectLinks :=
               [(key ''new'', \<lparr>state = Managed, scheduledOperation = OpNone, object = 1,
                          originalDocument = Some 2, persister = persister0\<rparr>),
                (key ''c'', \<lparr>state = Managed, scheduledOperation = OpNone, object = 3,
                        originalDocument = Some 1, persister = persister0\<rparr>)],
              id_attr := (id_attr session1)(5 := None)\<rparr>, Success None)"
    by (simp add: flush_eval session1_def)
  from three have "run (env0 None) flush session1 =
           (case batch_execute (env0 None) [UpdateOp 3, InsertOp 1, DeleteOp 5] of
              Some err \<Rightarrow> (session1\<lparr>objectLinks := ?list\<rparr>, Failure err)
            | None \<Rightarrow>
                (case reconcile ?list (session1\<lparr>objectLinks := ?list\<rparr>) of
                   (s1, Some x) \<Rightarrow> (s1, Throws x)
                 | (s1, None) \<Rightarrow> (s1, Success None)))"
    by blast
  then have "run (env0 None) flush session1 =
             (session1\<lparr>objectLinks :=
               [(key ''new'', \<lparr>state = Managed, scheduledOperation = OpNone, object = 1,
                          originalDocument = Some 2, persister = persister0\<rparr>),
                (key ''c'', \<lparr>state = Managed, scheduledOperation = OpNone, object = 3,
                        originalDocument = Some 1, persister = persister0\<rparr>)],
              id_attr := (id_attr session1)(5 := None)\<rparr>, Success None)"
    using r by (rule trans)
  with three a show ?thesis by blast
qed

text \<open>
  C5. A flush that calls its callback with an error (from a persister during assembly,
  or from the execution of the batch) leaves the table with the same keys in the same
  order, every link with the scheduled operation and the state it had, and every
  entity with the \<open>_id\<close> it had.
\<close>

theorem failed_flush_keeps_scheduled_operations:
  assumes "u_flush e s = (s', Failure err)"
  shows "map fst (objectLinks s') = map fst (objectLinks s)
       \<and> map (scheduledOperation \<circ> snd) (objectLinks s') = map (scheduledOperation \<circ> snd) (objectLinks s)
       \<and> map (state \<circ> snd) (objectLinks s') = map (state \<circ> snd) (objectLinks s)
       \<and> id_attr s' = id_attr s"
proof -
  obtain list batch r where asm: "assemble e s = (list, batch, r)"
    and s': "s' = s\<lparr>objectLinks := list\<rparr>"
    using assms by (auto simp: u_flush_def split: prod.splits option.splits)
  have sk: "skeleton (objectLinks s') = skeleton (objectLinks s)"
    using assemble_skeleton[OF asm] s' by simp
  show ?thesis
    using arg_cong[OF sk, of "map fst"] arg_cong[OF sk, of "map (scheduledOperation \<circ> snd)"]
      arg_cong[OF sk, of "map (state \<circ> snd)"] s'
    by (simp only: skeleton_keys skeleton_ops skeleton_states) simp
qed


theorem failed_flush_keeps_scheduled_operations_witness:
  "u_flush (env0 (Some (External 1))) session1
     = (fst (u_flush (env0 (Some (External 1))) session1), Failure (External 1))
   \<and> map fst (objectLinks (fst (u_flush (env0 (Some (External 1))) session1))) = [key ''b'', key ''new'', key ''c'']
   \<and> map (scheduledOperation \<circ> snd) (objectLinks (fst (u_flush (env0 (Some (External 1))) session1)))
       = [Delete, Insert, OpNone]
   \<and> map (scheduledOperation \<circ> snd) (objectLinks session1) = [Delete, Insert, OpNone]
   \<and> id_attr (fst (u_flush (env0 (Some (External 1))) session1)) 5 = Some (key ''b'')"
proof -
  have f: "u_flush (env0 (Some (External 1))) session1
     = (fst (u_flush (env0 (Some (External 1))) session1), Failure (External 1))"
    by (simp add: flush_eval session1_def)
  have "map fst (objectLinks session1) = [key ''b'', key ''new'', key ''c'']"
    and "map (scheduledOperation \<circ> snd) (objectLinks session1) = [Delete, Insert, OpNone]"
    and "id_attr session1 5 = Some (key ''b'')"
    by (simp_all add: session1_def)
  with failed_flush_keeps_scheduled_operations [OF f] f show ?thesis by simp
qed

section \<open>Consistency is kept by every operation\<close>

lemma getPersister_frame:
  "getPersister e m s = (s1, p) \<Longrightarrow>
     objectLinks s1 = objectLinks s \<and> id_attr s1 = id_attr s \<and> generated s1 = generated s"
  by (auto simp: getPersister_def Let_def split: option.splits)

lemma getPersisterForObject_frame:
  "u_getPersisterForObject e obj s = (s1, r) \<Longrightarrow>
     objectLinks s1 = objectLinks s \<and> id_attr s1 = id_attr s \<and> generated s1 = generated s
     \<and> (r = None \<longleftrightarrow> getMappingForObject e obj = None)"
  by (auto simp: u_getPersisterForObject_def split: option.splits prod.splits dest: getPersister_frame)

lemma getPersisterForConstructor_frame:
  "u_getPersisterForConstructor e ctr s = (s1, r) \<Longrightarrow>
     objectLinks s1 = objectLinks s \<and> id_attr s1 = id_attr s \<and> generated s1 = generated s"
  by (auto simp: u_getPersisterForConstructor_def split: option.splits prod.splits dest: getPersister_frame)

text \<open>The four outcomes of \<open>_getObjectLinks\<close>.\<close>

lemma getObjectLinks_cases:
  assumes "u_getObjectLinks e obj s = (s1, r)"
  obtains
    (no_id) "id_attr s obj = None" "s1 = s" "r = Inr None"
  | (linked) k links where "id_attr s obj = Some k" "map_of (objectLinks s) k = Some links"
      "s1 = s" "r = Inr (Some (k, links))"
  | (unmapped) k where "id_attr s obj = Some k" "map_of (objectLinks s) k = None"
      "getMappingForObject e obj = None" "s1 = s" "r = Inr None"
  | (detached) k p where "id_attr s obj = Some k" "map_of (objectLinks s) k = None"
      "getMappingForObject e obj \<noteq> None"
      "objectLinks s1 = objectLinks s @ [(k, \<lparr>state = Detached, scheduledOperation = OpNone,
          object = obj, originalDocument = None, persister = p\<rparr>)]"
      "id_attr s1 = id_attr s" "generated s1 = generated s"
      "r = Inr (Some (k, \<lparr>state = Detached, scheduledOperation = OpNone,
          object = obj, originalDocument = None, persister = p\<rparr>))"
proof (cases "id_attr s obj")
  case None
  then have "s1 = s" "r = Inr None" using assms by (simp_all add: u_getObjectLinks_def)
  then show ?thesis using None by (rule no_id[rotated])
next
  case (Some k)
  show ?thesis
  proof (cases "map_of (objectLinks s) k")
    case (Some links)
    then have "s1 = s" "r = Inr (Some (k, links))" using assms \<open>id_attr s obj = Some k\<close>
      by (simp_all add: u_getObjectLinks_def)
    then show ?thesis using \<open>id_attr s obj = Some k\<close> Some by (rule linked[rotated 2])
  next
    case None
    obtain s2 pr where gp: "u_getPersisterForObject e obj s = (s2, pr)"
      by (cases "u_getPersisterForObject e obj s")
    note fr = getPersisterForObject_frame[OF gp]
    show ?thesis
    proof (cases pr)
      case None
      then have "s1 = s2" "r = Inr None" using assms gp \<open>id_attr s obj = Some k\<close> \<open>map_of (objectLinks s) k = None\<close>
        by (simp_all add: u_getObjectLinks_def)
      moreover have "s2 = s" using gp None
        by (auto simp: u_getPersisterForObject_def split: option.splits prod.splits)
      moreover have "getMappingForObject e obj = None" using fr None by simp
      ultimately show ?thesis
        using \<open>id_attr s obj = Some k\<close> \<open>map_of (objectLinks s) k = None\<close>
        by (intro unmapped[of k]) simp_all
    next
      case (Some p)
      have absent: "k \<notin> fst ` set (objectLinks s2)"
        using \<open>map_of (objectLinks s) k = None\<close> fr by (simp add: map_of_eq_None_iff)
      have "s1 = setLink k (\<lambda>l. l\<lparr>state := Detached\<rparr>)
                (s2\<lparr>objectLinks := objectLinks s2 @ [(k, \<lparr>state = Managed, scheduledOperation = OpNone,
                     object = obj, originalDocument = None, persister = p\<rparr>)]\<rparr>)"
        and r: "r = Inr (Some (k, \<lparr>state = Detached, scheduledOperation = OpNone,
          object = obj, originalDocument = None, persister = p\<rparr>))"
        using assms gp Some \<open>id_attr s obj = Some k\<close> \<open>map_of (objectLinks s) k = None\<close> fr
        by (simp_all add: u_getObjectLinks_def u_linkObject_def Let_def)
      then have "objectLinks s1 = objectLinks s @ [(k, \<lparr>state = Detached, scheduledOperation = OpNone,
          object = obj, originalDocument = None, persister = p\<rparr>)]"
        "id_attr s1 = id_attr s" "generated s1 = generated s"
        using absent fr by (simp_all add: setLink_def map_entry_append_absent)
      moreover have "getMappingForObject e obj \<noteq> None" using fr Some by simp
      ultimately show ?thesis
        using r \<open>id_attr s obj = Some k\<close> \<open>map_of (objectLinks s) k = None\<close>
        by (intro detached[of k p]) simp_all
    qed
  qed
qed

lemma consistent_append:
  assumes "consistent s" and "map_of (objectLinks s) k = None" and "id_attr s (object l) = Some k"
    and "state l = Removed \<longleftrightarrow> scheduledOperation l = Delete"
    and "objectLinks s1 = objectLinks s @ [(k, l)]" and "id_attr s1 = id_attr s"
  shows "consistent s1"
  using assms by (auto simp: consistent_def map_of_eq_None_iff)

lemma getObjectLinks_consistent:
  assumes "consistent s" and "u_getObjectLinks e obj s = (s1, r)"
  shows "consistent s1 \<and> id_attr s1 = id_attr s \<and> generated s1 = generated s"
  using assms(2)
proof (cases rule: getObjectLinks_cases)
  case (detached k p)
  have "consistent s1"
    by (rule consistent_append[OF assms(1) detached(2) _ _ detached(4) detached(5)])
       (simp_all add: detached(1))
  then show ?thesis using detached by simp
qed (use assms(1) in auto)

lemma getObjectLinks_result:
  assumes "u_getObjectLinks e obj s = (s1, r)"
  shows "(\<exists>k links. r = Inr (Some (k, links)) \<and> map_of (objectLinks s1) k = Some links
            \<and> id_attr s1 obj = Some k)
         \<or> (r = Inr None \<and> s1 = s
              \<and> (id_attr s obj = None \<or> (\<exists>k. id_attr s obj = Some k \<and> map_of (objectLinks s) k = None
                    \<and> getMappingForObject e obj = None)))"
  using assms
proof (cases rule: getObjectLinks_cases)
  case (detached k p)
  then show ?thesis by (simp add: map_add_def)
qed auto


lemma consistent_mem:
  "consistent s \<Longrightarrow> map_of (objectLinks s) k = Some l \<Longrightarrow>
     id_attr s (object l) = Some k \<and> (state l = Removed \<longleftrightarrow> scheduledOperation l = Delete)"
  by (auto simp: consistent_def dest!: map_of_SomeD)

lemma consistent_no_id:
  "consistent s \<Longrightarrow> id_attr s obj = None \<Longrightarrow> (k, l) \<in> set (objectLinks s) \<Longrightarrow> object l \<noteq> obj"
  by (auto simp: consistent_def)

lemma map_entry_mem:
  "(k', l') \<in> set (AList.map_entry k f xs) \<Longrightarrow>
     (k', l') \<in> set xs \<or> (k' = k \<and> (\<exists>l. (k, l) \<in> set xs \<and> l' = f l))"
  by (induction xs) (auto split: if_splits)

lemma setLink_consistent:
  assumes "consistent s" and "\<And>l. object (f l) = object l"
    and "\<And>l. map_of (objectLinks s) k = Some l \<Longrightarrow>
            (state (f l) = Removed \<longleftrightarrow> scheduledOperation (f l) = Delete)"
  shows "consistent (setLink k f s)"
proof -
  have d: "distinct (map fst (objectLinks s))" using assms(1) by (simp add: consistent_def)
  have "id_attr s (object l') = Some k' \<and> (state l' = Removed \<longleftrightarrow> scheduledOperation l' = Delete)"
    if m: "(k', l') \<in> set (AList.map_entry k f (objectLinks s))" for k' l'
  proof -
    from map_entry_mem[OF m] show ?thesis
    proof
      assume "(k', l') \<in> set (objectLinks s)"
      then show ?thesis using assms(1) by (auto simp: consistent_def)
    next
      assume "k' = k \<and> (\<exists>l. (k, l) \<in> set (objectLinks s) \<and> l' = f l)"
      then obtain l where l: "k' = k" "(k, l) \<in> set (objectLinks s)" "l' = f l" by blast
      then have "map_of (objectLinks s) k = Some l" using d by simp
      then show ?thesis using assms(2,3) consistent_mem[OF assms(1)] l by simp
    qed
  qed
  then show ?thesis using d by (auto simp: consistent_def setLink_def distinct_map_entry)
qed

lemma setLink_frame [simp]:
  "id_attr (setLink k f s) = id_attr s" "generated (setLink k f s) = generated s"
  "persisterByMapping (setLink k f s) = persisterByMapping s"
  by (simp_all add: setLink_def)

lemma unlinkObject_consistent:
  assumes "consistent s" and "map_of (objectLinks s) k = Some l"
  shows "\<exists>s1. u_unlinkObject l s = Inr s1 \<and> consistent s1
           \<and> objectLinks s1 = AList.delete k (objectLinks s)
           \<and> id_attr s1 = (if scheduledOperation l = Insert \<or> state l = Removed
                            then (id_attr s)(object l := None) else id_attr s)
           \<and> generated s1 = generated s \<and> persisterByMapping s1 = persisterByMapping s"
proof -
  have idl: "id_attr s (object l) = Some k" using consistent_mem[OF assms] by simp
  define s1 where "s1 = s\<lparr>objectLinks := AList.delete k (objectLinks s),
      id_attr := (if scheduledOperation l = Insert \<or> state l = Removed
                  then (id_attr s)(object l := None) else id_attr s)\<rparr>"
  have un: "u_unlinkObject l s = Inr s1"
    using idl by (simp add: u_unlinkObject_def Let_def s1_def)
  have d: "distinct (map fst (objectLinks s))" using assms(1) by (simp add: consistent_def)
  have "id_attr s1 (object l') = Some k' \<and> (state l' = Removed \<longleftrightarrow> scheduledOperation l' = Delete)"
    if m: "(k', l') \<in> set (AList.delete k (objectLinks s))" for k' l'
  proof -
    have m': "(k', l') \<in> set (objectLinks s)" and ne: "k' \<noteq> k"
      using m by (auto simp: AList.delete_eq)
    then have a: "id_attr s (object l') = Some k'"
      and b: "state l' = Removed \<longleftrightarrow> scheduledOperation l' = Delete"
      using assms(1) by (auto simp: consistent_def)
    have "object l' \<noteq> object l" using a idl ne by auto
    then show ?thesis using a b by (simp add: s1_def)
  qed
  moreover have ol: "objectLinks s1 = AList.delete k (objectLinks s)" by (simp add: s1_def)
  ultimately have "consistent s1"
    unfolding consistent_def ol using d by (auto simp: distinct_delete)
  then show ?thesis using un by (simp add: s1_def)
qed

lemma forEntities_invariant:
  assumes "\<And>obj s s1 c. P s \<Longrightarrow> body obj s = (s1, c) \<Longrightarrow> P s1"
    and "P s" and "forEntities body xs s = (s', c)"
  shows "P s'"
  using assms(2,3)
proof (induction xs arbitrary: s)
  case Nil then show ?case by simp
next
  case (Cons x xs)
  obtain s1 c1 where b: "body x s = (s1, c1)" by (cases "body x s")
  have "P s1" using assms(1)[OF Cons.prems(1) b] .
  then show ?case using Cons.prems(2) Cons.IH[of s1] b by (cases c1) auto
qed

lemma saveEntity_consistent:
  assumes "consistent s" and "saveEntity e obj s = (s', c)"
  shows "consistent s'"
proof -
  obtain s1 r where g: "u_getObjectLinks e obj s = (s1, r)" by (cases "u_getObjectLinks e obj s")
  have c1: "consistent s1" using getObjectLinks_consistent[OF assms(1) g] by simp
  from getObjectLinks_result[OF g] consider
    (found) k links where "r = Inr (Some (k, links))" "map_of (objectLinks s1) k = Some links"
  | (none) "r = Inr None" "s1 = s"
      "id_attr s obj = None \<or> (\<exists>k. id_attr s obj = Some k \<and> map_of (objectLinks s) k = None
                    \<and> getMappingForObject e obj = None)"
    by blast
  then show ?thesis
  proof cases
    case (found k links)
    note r = found(1) and m = found(2)
    note cm = consistent_mem[OF c1 m]
    show ?thesis
    proof (cases "state links")
      case Managed
      have "consistent (setLink k (\<lambda>l. l\<lparr>scheduledOperation := DirtyCheck\<rparr>) s1)"
        by (rule setLink_consistent[OF c1]) (use m Managed in auto)
      then show ?thesis using assms(2) g r Managed c1
        by (auto simp: saveEntity_def split: if_splits)
    next
      case Detached
      then show ?thesis using assms(2) g r c1 by (auto simp: saveEntity_def)
    next
      case Removed
      have "consistent (setLink k (\<lambda>l. l\<lparr>scheduledOperation := OpNone, state := Managed\<rparr>) s1)"
        by (rule setLink_consistent[OF c1]) auto
      then show ?thesis using assms(2) g r Removed by (auto simp: saveEntity_def)
    qed
  next
    case none
    note r = none(1) and s1 = none(2) and why = none(3)
    obtain s2 pr where gp: "u_getPersisterForObject e obj s = (s2, pr)"
      by (cases "u_getPersisterForObject e obj s")
    note fr = getPersisterForObject_frame[OF gp]
    have c2: "consistent s2" using assms(1) fr by (simp add: consistent_def)
    show ?thesis
    proof (cases pr)
      case None
      then show ?thesis using assms(2) g r s1 gp c2 by (simp add: saveEntity_def)
    next
      case (Some p)
      then have noid: "id_attr s obj = None" using why fr by auto
      define gid where "gid = identity_generate e (mappingId p) (generated s2)"
      define s3 where "s3 = s2\<lparr>id_attr := (id_attr s2)(obj \<mapsto> gid), generated := Suc (generated s2)\<rparr>"
      have c3: "consistent s3"
        using c2 consistent_no_id[OF c2, of obj] noid fr
        by (fastforce simp: consistent_def s3_def)
      show ?thesis
      proof (cases "map_of (objectLinks s3) gid")
        case None
        let ?l = "\<lparr>state = Managed, scheduledOperation = Insert, object = obj,
                           originalDocument = None, persister = p\<rparr>"
        have "consistent (s3\<lparr>objectLinks := objectLinks s3 @ [(gid, ?l)]\<rparr>)"
          by (rule consistent_append[OF c3 None, of ?l]) (simp_all add: s3_def)
        moreover have "s' = s3\<lparr>objectLinks := objectLinks s3 @ [(gid, ?l)]\<rparr>"
          using assms(2) g r s1 gp Some None
          by (simp add: saveEntity_def Let_def u_linkObject_def s3_def gid_def)
        ultimately show ?thesis by simp
      next
        case (Some l2)
        then have "s' = s3"
          using assms(2) g r s1 gp \<open>pr = Some p\<close>
          by (simp add: saveEntity_def Let_def u_linkObject_def s3_def gid_def)
        then show ?thesis using c3 by simp
      qed
    qed
  qed
qed

lemma removeEntity_consistent:
  assumes "consistent s" and "removeEntity e obj s = (s', c)"
  shows "consistent s'"
proof -
  obtain s1 r where g: "u_getObjectLinks e obj s = (s1, r)" by (cases "u_getObjectLinks e obj s")
  have c1: "consistent s1" using getObjectLinks_consistent[OF assms(1) g] by simp
  from getObjectLinks_result[OF g] consider
    (found) k links where "r = Inr (Some (k, links))" "map_of (objectLinks s1) k = Some links"
  | (none) "r = Inr None" "s1 = s"
      "id_attr s obj = None \<or> (\<exists>k. id_attr s obj = Some k \<and> map_of (objectLinks s) k = None
                    \<and> getMappingForObject e obj = None)"
    by blast
  then show ?thesis
  proof cases
    case (found k links)
    note r = found(1) and m = found(2)
    obtain s2 where un: "u_unlinkObject links s1 = Inr s2" "consistent s2"
      using unlinkObject_consistent[OF c1 m] by blast
    have sl: "consistent (setLink k (\<lambda>l. l\<lparr>scheduledOperation := Delete, state := Removed\<rparr>) s1)"
      by (rule setLink_consistent[OF c1]) auto
    show ?thesis using assms(2) g r c1 un sl
      by (cases "state links") (auto simp: removeEntity_def split: if_splits)
  next
    case none
    then show ?thesis using assms g by (simp add: removeEntity_def)
  qed
qed

lemma detachEntity_consistent:
  assumes "consistent s" and "detachEntity e obj s = (s', c)"
  shows "consistent s'"
proof -
  obtain s1 r where g: "u_getObjectLinks e obj s = (s1, r)" by (cases "u_getObjectLinks e obj s")
  have c1: "consistent s1" using getObjectLinks_consistent[OF assms(1) g] by simp
  from getObjectLinks_result[OF g] consider
    (found) k links where "r = Inr (Some (k, links))" "map_of (objectLinks s1) k = Some links"
  | (none) "r = Inr None" "s1 = s"
      "id_attr s obj = None \<or> (\<exists>k. id_attr s obj = Some k \<and> map_of (objectLinks s) k = None
                    \<and> getMappingForObject e obj = None)"
    by blast
  then show ?thesis
  proof cases
    case (found k links)
    note r = found(1) and m = found(2)
    obtain s2 where un: "u_unlinkObject links s1 = Inr s2" "consistent s2"
      using unlinkObject_consistent[OF c1 m] by blast
    show ?thesis using assms(2) g r c1 un
      by (auto simp: detachEntity_def split: if_splits)
  next
    case none
    then show ?thesis using assms g by (simp add: detachEntity_def)
  qed
qed


lemma registerManaged_consistent:
  assumes "consistent s" and "registerManaged p entity document s = Inr s1"
  shows "consistent s1"
proof -
  obtain k where k: "id_attr s entity = Some k" and absent: "map_of (objectLinks s) k = None"
    using assms(2) by (auto simp: registerManaged_def u_linkObject_def split: option.splits if_splits)
  let ?l = "\<lparr>state = Managed, scheduledOperation = OpNone, object = entity,
             originalDocument = None, persister = p\<rparr>"
  define s2 where "s2 = s\<lparr>objectLinks := objectLinks s @ [(k, ?l)]\<rparr>"
  have c2: "consistent s2"
    by (rule consistent_append[OF assms(1) absent, of ?l]) (simp_all add: k s2_def)
  have "s1 = setLink k (\<lambda>l. l\<lparr>originalDocument := Some document\<rparr>) s2"
    using assms(2) k absent by (simp add: registerManaged_def u_linkObject_def Let_def s2_def)
  moreover have "consistent (setLink k (\<lambda>l. l\<lparr>originalDocument := Some document\<rparr>) s2)"
    by (rule setLink_consistent[OF c2]) (use c2 in \<open>auto dest: consistent_mem\<close>)
  ultimately show ?thesis by simp
qed

lemma registerAll_consistent:
  "consistent s \<Longrightarrow> registerAll rs s = (s1, x) \<Longrightarrow> consistent s1"
proof (induction rs arbitrary: s)
  case Nil then show ?case by simp
next
  case (Cons a rs)
  obtain p entity document where a: "a = (p, entity, document)" by (cases a)
  show ?case
  proof (cases "registerManaged p entity document s")
    case (Inl x1)
    then show ?thesis using Cons.prems unfolding a by simp
  next
    case (Inr s2)
    then show ?thesis
      using Cons.prems Cons.IH[of s2] registerManaged_consistent[OF Cons.prems(1) Inr]
      unfolding a by simp
  qed
qed

lemma collaborate_consistent:
  "consistent s \<Longrightarrow> collaborate r s = (s1, x) \<Longrightarrow> consistent s1"
  by (auto simp: collaborate_def split: prod.splits option.splits dest: registerAll_consistent)

lemma findReferencedEntities_consistent:
  "consistent s \<Longrightarrow> u_findReferencedEntities e obj flags s = (s1, x) \<Longrightarrow> consistent s1"
  by (auto simp: u_findReferencedEntities_def u_walk_def split: option.splits
      dest: collaborate_consistent)

lemma saveEntities_consistent:
  "consistent s \<Longrightarrow> u_saveEntities e entities s = (s', c) \<Longrightarrow> consistent s'"
  unfolding u_saveEntities_def
  by (rule forEntities_invariant[where P = consistent and body = "saveEntity e"])
     (auto intro: saveEntity_consistent)

lemma removeEntities_consistent:
  "consistent s \<Longrightarrow> u_removeEntities e entities s = (s', c) \<Longrightarrow> consistent s'"
  unfolding u_removeEntities_def
  by (rule forEntities_invariant[where P = consistent and body = "removeEntity e"])
     (auto intro: removeEntity_consistent)

lemma detachEntities_consistent:
  "consistent s \<Longrightarrow> u_detachEntities e entities s = (s', c) \<Longrightarrow> consistent s'"
  unfolding u_detachEntities_def
  by (rule forEntities_invariant[where P = consistent and body = "detachEntity e"])
     (auto intro: detachEntity_consistent)

lemma save_consistent: "consistent s \<Longrightarrow> u_save e obj s = (s', c) \<Longrightarrow> consistent s'"
  by (auto simp: u_save_def split: prod.splits sum.splits
      dest: findReferencedEntities_consistent saveEntities_consistent)

lemma remove_consistent: "consistent s \<Longrightarrow> u_remove e obj s = (s', c) \<Longrightarrow> consistent s'"
  by (auto simp: u_remove_def split: prod.splits sum.splits
      dest: findReferencedEntities_consistent removeEntities_consistent)

lemma detach_consistent: "consistent s \<Longrightarrow> u_detach e obj s = (s', c) \<Longrightarrow> consistent s'"
  by (auto simp: u_detach_def split: prod.splits sum.splits
      dest: findReferencedEntities_consistent detachEntities_consistent)

lemma find_consistent: "consistent s \<Longrightarrow> u_find e ctr i s = (s', c) \<Longrightarrow> consistent s'"
proof -
  assume c: "consistent s" and f: "u_find e ctr i s = (s', c)"
  obtain s1 pr where gp: "u_getPersisterForConstructor e ctr s = (s1, pr)"
    by (cases "u_getPersisterForConstructor e ctr s")
  have c1: "consistent s1" using getPersisterForConstructor_frame[OF gp] c by (simp add: consistent_def)
  show ?thesis using f gp c1
    by (auto simp: u_find_def findOneById_def split: option.splits prod.splits sum.splits
        dest: collaborate_consistent)
qed

lemma fetch_consistent: "consistent s \<Longrightarrow> u_fetch e obj paths s = (s', c) \<Longrightarrow> consistent s'"
  by (auto simp: u_fetch_def u_fetchPaths_def
      split: target.splits prod.splits sum.splits if_splits dest: collaborate_consistent)

lemma clear_consistent: "u_clear s = (s', c) \<Longrightarrow> consistent s'"
  by (auto simp: u_clear_def consistent_def)

lemma flush_never_throws:
  assumes "consistent s"
  shows "snd (u_flush e s) \<noteq> Throws x"
proof -
  obtain list batch r where asm: "assemble e s = (list, batch, r)" by (cases "assemble e s") auto
  have w: "consistent (s\<lparr>objectLinks := list\<rparr>)"
    using consistent_skeleton[OF assms assemble_skeleton[OF asm]] .
  have "\<exists>s''. reconcile list (s\<lparr>objectLinks := list\<rparr>) = (s'', None)
      \<and> objectLinks s'' = [] @ cleared list
      \<and> id_attr s'' = (\<lambda>obj. if obj \<in> deletedEntities list
                              then None else id_attr (s\<lparr>objectLinks := list\<rparr>) obj)
      \<and> persisterByMapping s'' = persisterByMapping (s\<lparr>objectLinks := list\<rparr>)
      \<and> generated s'' = generated (s\<lparr>objectLinks := list\<rparr>)"
    by (rule reconcile_consistent) (use w in \<open>auto simp: consistent_def\<close>)
  then show ?thesis using asm
    by (auto simp: u_flush_def split: option.splits)
qed

lemma flush_consistent:
  assumes "consistent s" and "u_flush e s = (s', c)"
  shows "consistent s'"
proof (cases c)
  case (Success r)
  obtain list batch where asm: "assemble e s = (list, batch, None)"
    and links: "objectLinks s' = cleared list"
    and ids: "id_attr s' = (\<lambda>obj. if obj \<in> deletedEntities list
                              then None else id_attr s obj)"
    using flush_success[OF assms(1)] assms(2) Success by blast
  have w: "consistent (s\<lparr>objectLinks := list\<rparr>)"
    using consistent_skeleton[OF assms(1) assemble_skeleton[OF asm]] .
  then have d: "distinct (map fst list)"
    and inv: "\<And>k l. (k, l) \<in> set list \<Longrightarrow> id_attr s (object l) = Some k
                 \<and> (state l = Removed \<longleftrightarrow> scheduledOperation l = Delete)"
    by (auto simp: consistent_def)
  have keys: "map fst (objectLinks s') = map fst (filter (\<lambda>(k, l). scheduledOperation l \<noteq> Delete) list)"
    unfolding links by (simp add: split_def comp_def)
  have "distinct (map fst (objectLinks s'))"
    unfolding keys using d by (simp add: distinct_map_filter)
  moreover have "id_attr s' (object l') = Some k \<and> (state l' = Removed \<longleftrightarrow> scheduledOperation l' = Delete)"
    if m: "(k, l') \<in> set (objectLinks s')" for k l'
  proof -
    obtain l where l: "(k, l) \<in> set list" "scheduledOperation l \<noteq> Delete"
      "l' = l\<lparr>scheduledOperation := OpNone\<rparr>"
      using m unfolding links by auto
    have "object l \<notin> deletedEntities list"
    proof
      assume "object l \<in> deletedEntities list"
      then obtain k2 l2 where l2: "(k2, l2) \<in> set list" "scheduledOperation l2 = Delete"
        "object l2 = object l" by auto
      then have "k2 = k" using inv[OF l2(1)] inv[OF l(1)] by simp
      then have "l2 = l" using d l(1) l2(1) by (meson eq_key_imp_eq_value)
      then show False using l(2) l2(2) by simp
    qed
    then show ?thesis using inv[OF l(1)] l unfolding ids by simp
  qed
  ultimately show ?thesis by (auto simp: consistent_def)
next
  case (Failure err)
  then obtain list batch r where asm: "assemble e s = (list, batch, r)"
    and s': "s' = s\<lparr>objectLinks := list\<rparr>"
    using assms(2) by (auto simp: u_flush_def split: prod.splits option.splits)
  show ?thesis using consistent_skeleton[OF assms(1) assemble_skeleton[OF asm]] s' by simp
next
  case NeverCalled
  then show ?thesis using assms(2) by (auto simp: u_flush_def split: prod.splits option.splits)
next
  case (Throws x)
  then show ?thesis using flush_never_throws[OF assms(1), of e x] assms(2) by simp
qed

lemma execute_consistent:
  assumes "consistent s" and "u_execute e act a s = (s', c)"
  shows "consistent s'"
  using assms
  by (cases act; cases a)
     (auto simp: u_execute_def dest: save_consistent remove_consistent detach_consistent
        clear_consistent flush_consistent find_consistent fetch_consistent)

lemma run_consistent: "consistent s \<Longrightarrow> consistent (fst (run e t s))"
  using execute_consistent[of s e "action t" "arg t"] by (cases "run e t s") (simp add: run_def)

lemma reachable_consistent: "reachable s \<Longrightarrow> consistent s"
proof (induction rule: reachable.induct)
  case (new s)
  then show ?case by (simp add: consistent_def)
next
  case (step s e t)
  from step.IH show ?case by (rule run_consistent)
qed

section \<open>Detached entities\<close>

lemma getObjectLinks_detached:
  assumes "id_attr s obj = Some k" and "map_of (objectLinks s) k = None"
    and "getMappingForObject e obj \<noteq> None"
  shows "\<exists>s1 p. u_getObjectLinks e obj s
            = (s1, Inr (Some (k, \<lparr>state = Detached, scheduledOperation = OpNone, object = obj,
                                   originalDocument = None, persister = p\<rparr>)))
          \<and> objectLinks s1 = objectLinks s @ [(k, \<lparr>state = Detached, scheduledOperation = OpNone,
                                   object = obj, originalDocument = None, persister = p\<rparr>)]
          \<and> id_attr s1 = id_attr s \<and> generated s1 = generated s"
proof -
  obtain s1 r where g: "u_getObjectLinks e obj s = (s1, r)" by (cases "u_getObjectLinks e obj s")
  from g show ?thesis
  proof (cases rule: getObjectLinks_cases)
    case (detached k' p)
    then show ?thesis using g assms by auto
  qed (use assms in auto)
qed

text \<open>
  C2, as the code has it. When save or remove comes to a detached entity (it has an
  \<open>_id\<close>, no link is stored under that identifier, and its type is mapped), it reports
  the detached-object error, and by then \<open>_getObjectLinks\<close> has stored a link for the
  entity in the table, under its identifier, with state Detached and no scheduled
  operation. (save takes the entities in order, remove in reverse order.)
\<close>

theorem detached_entity_is_linked_and_rejected:
  assumes "id_attr s obj = Some k" and "map_of (objectLinks s) k = None"
    and "getMappingForObject e obj \<noteq> None"
  shows "(\<exists>s1 p. u_saveEntities e (obj # rest) s = (s1, Failure CannotSaveDetached)
            \<and> objectLinks s1 = objectLinks s @ [(k, \<lparr>state = Detached, scheduledOperation = OpNone,
                                   object = obj, originalDocument = None, persister = p\<rparr>)])
       \<and> (\<exists>s2 p. u_removeEntities e (rest @ [obj]) s = (s2, Failure CannotRemoveDetached)
            \<and> objectLinks s2 = objectLinks s @ [(k, \<lparr>state = Detached, scheduledOperation = OpNone,
                                   object = obj, originalDocument = None, persister = p\<rparr>)])"
proof -
  obtain s1 p where g: "u_getObjectLinks e obj s
            = (s1, Inr (Some (k, \<lparr>state = Detached, scheduledOperation = OpNone, object = obj,
                                   originalDocument = None, persister = p\<rparr>)))"
    and l: "objectLinks s1 = objectLinks s @ [(k, \<lparr>state = Detached, scheduledOperation = OpNone,
                                   object = obj, originalDocument = None, persister = p\<rparr>)]"
    using getObjectLinks_detached[OF assms] by blast
  have "saveEntity e obj s = (s1, Some (Failure CannotSaveDetached))"
    using g by (simp add: saveEntity_def)
  then have "u_saveEntities e (obj # rest) s = (s1, Failure CannotSaveDetached)"
    by (simp add: u_saveEntities_def)
  moreover have "removeEntity e obj s = (s1, Some (Failure CannotRemoveDetached))"
    using g by (simp add: removeEntity_def)
  then have "u_removeEntities e (rest @ [obj]) s = (s1, Failure CannotRemoveDetached)"
    by (simp add: u_removeEntities_def)
  ultimately show ?thesis using l by blast
qed

lemmas save_eval = run_def save_def u_execute_def u_save_def u_findReferencedEntities_def u_walk_def
  collaborate_def u_saveEntities_def saveEntity_def u_getObjectLinks_def u_getPersisterForObject_def
  getPersister_def u_linkObject_def setLink_def Let_def env0_def

text \<open>
  C2, as the claim states it, fails: saving the detached entity 3 in a new session
  reports the error and leaves a reachable session whose table holds a link of state
  Detached for that entity.
\<close>

theorem detached_in_table_counterexample:
  "reachable (fst (run (env0 None) (save 3) session0))
   \<and> snd (run (env0 None) (save 3) session0) = Failure CannotSaveDetached
   \<and> map fst (objectLinks (fst (run (env0 None) (save 3) session0))) = [key ''c'']
   \<and> map (state \<circ> snd) (objectLinks (fst (run (env0 None) (save 3) session0))) = [Detached]
   \<and> map (object \<circ> snd) (objectLinks (fst (run (env0 None) (save 3) session0))) = [3]"
proof -
  have "reachable session0" by (rule reachable.new) (simp_all add: session0_def)
  then have "reachable (fst (run (env0 None) (save 3) session0))" by (rule reachable.step)
  then show ?thesis by (simp add: save_eval session0_def)
qed

theorem detached_entity_is_linked_and_rejected_witness:
  "id_attr session0 3 = Some (key ''c'') \<and> map_of (objectLinks session0) (key ''c'') = None
   \<and> getMappingForObject (env0 None) 3 \<noteq> None
   \<and> snd (u_saveEntities (env0 None) [3, 1] session0) = Failure CannotSaveDetached
   \<and> snd (u_removeEntities (env0 None) [1, 3] session0) = Failure CannotRemoveDetached
   \<and> map fst (objectLinks (fst (u_saveEntities (env0 None) [3, 1] session0))) = [key ''c'']
   \<and> map fst (objectLinks (fst (u_removeEntities (env0 None) [1, 3] session0))) = [key ''c'']"
proof -
  have a: "id_attr session0 3 = Some (key ''c'')" and b: "map_of (objectLinks session0) (key ''c'') = None"
    and c: "getMappingForObject (env0 None) 3 \<noteq> None"
    by (simp_all add: session0_def env0_def)
  from detached_entity_is_linked_and_rejected [OF a b c, of "[1]"] a b c
  show ?thesis by (auto simp: session0_def)
qed


section \<open>save is not atomic\<close>

lemma forEntities_append:
  assumes "\<And>obj s s1 r. body obj s \<noteq> (s1, Some (Success r))"
    and "forEntities body xs s = (s1, Success r)"
  shows "forEntities body (xs @ ys) s = forEntities body ys s1"
  using assms(2)
proof (induction xs arbitrary: s)
  case Nil then show ?case by simp
next
  case (Cons x xs)
  obtain s2 c where b: "body x s = (s2, c)" by (cases "body x s")
  show ?case
  proof (cases c)
    case None
    then show ?thesis using Cons b by simp
  next
    case (Some c')
    then have "c' = Success r" using Cons.prems b by simp
    then show ?thesis using assms(1)[of x s s2 r] b Some by simp
  qed
qed

lemma saveEntity_no_success: "saveEntity e obj s \<noteq> (s1, Some (Success r))"
  by (auto simp: saveEntity_def Let_def
      split: prod.splits sum.splits option.splits ObjectState.splits if_splits)

lemma removeEntity_no_success: "removeEntity e obj s \<noteq> (s1, Some (Success r))"
  by (auto simp: removeEntity_def Let_def
      split: prod.splits sum.splits option.splits ObjectState.splits if_splits)

lemma newlyLinkedI:
  "id_attr s n = Some g \<Longrightarrow> map_of (objectLinks s) g = Some l \<Longrightarrow> state l = Managed \<Longrightarrow>
     scheduledOperation l = Insert \<Longrightarrow> object l = n \<Longrightarrow> newlyLinked s n"
  by (simp add: newlyLinked_def)

lemma newlyLinkedE:
  assumes "newlyLinked s n"
  obtains g l where "id_attr s n = Some g" "map_of (objectLinks s) g = Some l" "state l = Managed"
    "scheduledOperation l = Insert" "object l = n"
  using assms by (auto simp: newlyLinked_def split: option.splits)

lemma map_of_append_present: "map_of xs k = Some v \<Longrightarrow> map_of (xs @ ys) k = Some v"
  by (simp add: map_add_def)

lemma map_of_append_absent: "map_of xs k = None \<Longrightarrow> map_of (xs @ ys) k = map_of ys k"
  by (simp add: map_add_def)

lemma saveEntity_new:
  assumes "id_attr s n = None" and "saveEntity e n s = (s1, None)"
  shows "newlyLinked s1 n"
proof -
  have g: "u_getObjectLinks e n s = (s, Inr None)" using assms(1) by (simp add: u_getObjectLinks_def)
  obtain s2 pr where gp: "u_getPersisterForObject e n s = (s2, pr)"
    by (cases "u_getPersisterForObject e n s")
  note fr = getPersisterForObject_frame[OF gp]
  obtain p where p: "pr = Some p" using assms(2) g gp by (cases pr) (auto simp: saveEntity_def)
  define gid where "gid = identity_generate e (mappingId p) (generated s2)"
  let ?l = "\<lparr>state = Managed, scheduledOperation = Insert, object = n,
                           originalDocument = None, persister = p\<rparr>"
  have absent: "map_of (objectLinks s2) gid = None"
    using assms(2) g gp p
    by (auto simp: saveEntity_def Let_def u_linkObject_def gid_def split: if_splits)
  then have "s1 = s2\<lparr>id_attr := (id_attr s2)(n \<mapsto> gid), generated := Suc (generated s2),
                     objectLinks := objectLinks s2 @ [(gid, ?l)]\<rparr>"
    using assms(2) g gp p by (simp add: saveEntity_def Let_def u_linkObject_def gid_def)
  then show ?thesis
    using absent by (intro newlyLinkedI[of _ _ gid ?l]) (simp_all add: map_add_def)
qed

lemma saveEntity_keeps_newlyLinked:
  assumes "newlyLinked s n" and "saveEntity e obj s = (s', c)"
  shows "newlyLinked s' n"
proof -
  from assms(1) obtain g l where n: "id_attr s n = Some g" "map_of (objectLinks s) g = Some l"
    "state l = Managed" "scheduledOperation l = Insert" "object l = n"
    by (rule newlyLinkedE)
  obtain s1 r where gl: "u_getObjectLinks e obj s = (s1, r)" by (cases "u_getObjectLinks e obj s")
  from gl show ?thesis
  proof (cases rule: getObjectLinks_cases)
    case no_id
    then have ne: "obj \<noteq> n" using n(1) by auto
    obtain s2 pr where gp: "u_getPersisterForObject e obj s = (s2, pr)"
      by (cases "u_getPersisterForObject e obj s")
    note fr = getPersisterForObject_frame[OF gp]
    show ?thesis
    proof (cases pr)
      case None
      then have "s' = s2" using assms(2) gl no_id gp by (simp add: saveEntity_def)
      then show ?thesis using n fr by (intro newlyLinkedI[of _ _ g l]) simp_all
    next
      case (Some p)
      define gid where "gid = identity_generate e (mappingId p) (generated s2)"
      define s3 where "s3 = s2\<lparr>id_attr := (id_attr s2)(obj \<mapsto> gid), generated := Suc (generated s2)\<rparr>"
      have "s' = s3 \<or> (\<exists>l2. s' = s3\<lparr>objectLinks := objectLinks s3 @ [(gid, l2)]\<rparr>)"
        using assms(2) gl no_id gp Some
        by (auto simp: saveEntity_def Let_def u_linkObject_def gid_def s3_def split: if_splits)
      then show ?thesis
        using n fr ne
        by (elim disjE exE; intro newlyLinkedI[of _ _ g l]) (simp_all add: s3_def map_of_append_present)
    qed
  next
    case (linked k links)
    show ?thesis
    proof (cases "k = g")
      case True
      then have "links = l" using linked(2) n(2) by simp
      then have "s' = s" using assms(2) gl linked n by (simp add: saveEntity_def)
      then show ?thesis using assms(1) by simp
    next
      case False
      have "\<exists>f. s' = s \<or> s' = setLink k f s"
        using assms(2) gl linked
        by (cases "state links") (auto simp: saveEntity_def split: if_splits)
      then obtain f where "s' = s \<or> s' = setLink k f s" by blast
      then show ?thesis
        using n False assms(1)
        by (elim disjE; intro newlyLinkedI[of _ _ g l])
           (simp_all add: setLink_def AList.map_of_map_entry)
    qed
  next
    case (unmapped k)
    obtain s2 pr where gp: "u_getPersisterForObject e obj s = (s2, pr)"
      by (cases "u_getPersisterForObject e obj s")
    note fr = getPersisterForObject_frame[OF gp]
    have "pr = None" using fr unmapped by simp
    then have "s' = s2" using assms(2) gl unmapped gp by (simp add: saveEntity_def)
    then show ?thesis using n fr by (intro newlyLinkedI[of _ _ g l]) simp_all
  next
    case (detached k p)
    then have "s' = s1" using assms(2) gl by (simp add: saveEntity_def)
    then show ?thesis
      using n detached by (intro newlyLinkedI[of _ _ g l]) (simp_all add: map_of_append_present)
  qed
qed

lemma saveEntity_keeps_no_id:
  assumes "id_attr s n = None" and "obj \<noteq> n" and "saveEntity e obj s = (s', c)"
  shows "id_attr s' n = None"
proof -
  obtain s1 r where gl: "u_getObjectLinks e obj s = (s1, r)" by (cases "u_getObjectLinks e obj s")
  from gl show ?thesis
  proof (cases rule: getObjectLinks_cases)
    case no_id
    obtain s2 pr where gp: "u_getPersisterForObject e obj s = (s2, pr)"
      by (cases "u_getPersisterForObject e obj s")
    note fr = getPersisterForObject_frame[OF gp]
    show ?thesis
      using assms gl no_id gp fr
      by (cases pr) (auto simp: saveEntity_def Let_def u_linkObject_def split: if_splits)
  next
    case (linked k links)
    then show ?thesis using assms gl
      by (cases "state links") (auto simp: saveEntity_def split: if_splits)
  next
    case (unmapped k)
    obtain s2 pr where gp: "u_getPersisterForObject e obj s = (s2, pr)"
      by (cases "u_getPersisterForObject e obj s")
    note fr = getPersisterForObject_frame[OF gp]
    have "pr = None" using fr unmapped by simp
    then show ?thesis using assms gl unmapped gp fr by (simp add: saveEntity_def)
  next
    case (detached k p)
    then show ?thesis using assms gl by (auto simp: saveEntity_def)
  qed
qed

lemma saveEntities_links_new:
  assumes "forEntities (saveEntity e) xs s = (s1, Success r)" and "n \<in> set xs"
    and "id_attr s n = None \<or> newlyLinked s n"
  shows "newlyLinked s1 n"
  using assms
proof (induction xs arbitrary: s)
  case Nil then show ?case by simp
next
  case (Cons x xs)
  obtain s2 c where b: "saveEntity e x s = (s2, c)" by (cases "saveEntity e x s")
  have c: "c = None"
    using Cons.prems(1) b saveEntity_no_success[of e x s s2 r] by (cases c) auto
  then have rest: "forEntities (saveEntity e) xs s2 = (s1, Success r)" using Cons.prems(1) b by simp
  have keep: "newlyLinked s0 n \<Longrightarrow> forEntities (saveEntity e) xs s0 = (s1, Success r) \<Longrightarrow> newlyLinked s1 n" for s0
    by (rule forEntities_invariant[where P = "\<lambda>s. newlyLinked s n" and body = "saveEntity e"])
       (auto intro: saveEntity_keeps_newlyLinked)
  show ?case
  proof (cases "newlyLinked s n")
    case True
    then have "newlyLinked s2 n" using b by (rule saveEntity_keeps_newlyLinked)
    then show ?thesis using keep rest by blast
  next
    case False
    then have noid: "id_attr s n = None" using Cons.prems(3) by simp
    show ?thesis
    proof (cases "x = n")
      case True
      then have "newlyLinked s2 n" using saveEntity_new[OF noid] b c by simp
      then show ?thesis using keep rest by blast
    next
      case False
      then have "id_attr s2 n = None" using saveEntity_keeps_no_id[OF noid _ b] by simp
      moreover have "n \<in> set xs" using Cons.prems(2) False by simp
      ultimately show ?thesis using Cons.IH[OF rest] by simp
    qed
  qed
qed

text \<open>
  C10. Let save have gone through the entities \<open>xs\<close> without an early return, \<open>n\<close> among
  them with no \<open>_id\<close> at the start, and let the next entity \<open>d\<close> be detached by then.
  Then save reports the detached-object error, and \<open>n\<close> is left with an identifier
  under which the table holds its link, Managed, with an insert scheduled.
\<close>

theorem save_is_not_atomic:
  assumes "u_saveEntities e xs s = (s1, Success r)"
    and "n \<in> set xs" and "id_attr s n = None"
    and "id_attr s1 d = Some k" and "map_of (objectLinks s1) k = None"
    and "getMappingForObject e d \<noteq> None"
  shows "\<exists>s2 g l. u_saveEntities e (xs @ d # ys) s = (s2, Failure CannotSaveDetached)
           \<and> id_attr s2 n = Some g \<and> map_of (objectLinks s2) g = Some l
           \<and> state l = Managed \<and> scheduledOperation l = Insert \<and> object l = n"
proof -
  have pre: "forEntities (saveEntity e) xs s = (s1, Success r)"
    using assms(1) by (simp add: u_saveEntities_def)
  have n1: "newlyLinked s1 n" using saveEntities_links_new[OF pre assms(2)] assms(3) by simp
  obtain s2 p where g: "u_getObjectLinks e d s1
            = (s2, Inr (Some (k, \<lparr>state = Detached, scheduledOperation = OpNone, object = d,
                                   originalDocument = None, persister = p\<rparr>)))"
    using getObjectLinks_detached[OF assms(4,5,6)] by blast
  have step: "saveEntity e d s1 = (s2, Some (Failure CannotSaveDetached))"
    using g by (simp add: saveEntity_def)
  have "forEntities (saveEntity e) (xs @ d # ys) s = forEntities (saveEntity e) (d # ys) s1"
    by (rule forEntities_append[OF _ pre]) (rule saveEntity_no_success)
  then have run: "u_saveEntities e (xs @ d # ys) s = (s2, Failure CannotSaveDetached)"
    using step by (simp add: u_saveEntities_def)
  have "newlyLinked s2 n" using n1 step by (rule saveEntity_keeps_newlyLinked)
  then show ?thesis using run by (auto elim!: newlyLinkedE)
qed


theorem save_is_not_atomic_witness:
  "u_saveEntities (env0 None) [1] session0
     = (fst (u_saveEntities (env0 None) [1] session0), Success None)
   \<and> 1 \<in> set [1::nat] \<and> id_attr session0 1 = None
   \<and> id_attr (fst (u_saveEntities (env0 None) [1] session0)) 3 = Some (key ''c'')
   \<and> map_of (objectLinks (fst (u_saveEntities (env0 None) [1] session0))) (key ''c'') = None
   \<and> getMappingForObject (env0 None) 3 \<noteq> None
   \<and> snd (u_saveEntities (env0 None) ([1] @ 3 # [2]) session0) = Failure CannotSaveDetached
   \<and> id_attr (fst (u_saveEntities (env0 None) ([1] @ 3 # [2]) session0)) 1 = Some (key ''new'')
   \<and> map fst (objectLinks (fst (u_saveEntities (env0 None) ([1] @ 3 # [2]) session0))) = [key ''new'', key ''c'']
   \<and> map (state \<circ> snd) (objectLinks (fst (u_saveEntities (env0 None) ([1] @ 3 # [2]) session0)))
       = [Managed, Detached]
   \<and> map (scheduledOperation \<circ> snd)
         (objectLinks (fst (u_saveEntities (env0 None) ([1] @ 3 # [2]) session0)))
       = [Insert, OpNone]"
proof -
  have a: "u_saveEntities (env0 None) [1] session0
     = (fst (u_saveEntities (env0 None) [1] session0), Success None)"
    by (simp add: save_eval session0_def)
  have b: "(1::nat) \<in> set [1]" and c: "id_attr session0 1 = None"
    and d: "id_attr (fst (u_saveEntities (env0 None) [1] session0)) 3 = Some (key ''c'')"
    and f: "map_of (objectLinks (fst (u_saveEntities (env0 None) [1] session0))) (key ''c'') = None"
    and g: "getMappingForObject (env0 None) 3 \<noteq> None"
    by (simp_all add: save_eval session0_def)
  from save_is_not_atomic [OF a b c d f g, of "[2]"]
  have "snd (u_saveEntities (env0 None) ([1] @ 3 # [2]) session0) = Failure CannotSaveDetached"
    by auto
  then show ?thesis using a b c d f g
    by (simp add: save_eval session0_def)
qed

section \<open>remove of an entity that was never persisted\<close>

lemma dirtyCheckPass_entities:
  "dirtyCheckPass e list b = (list1, b1, r) \<Longrightarrow>
     op_entity ` set b1 \<subseteq> op_entity ` set b \<union> (object \<circ> snd) ` set list"
proof (induction list arbitrary: b list1 b1 r)
  case Nil then show ?case by simp
next
  case (Cons a list)
  obtain k l where a: "a = (k, l)" by (cases a)
  show ?case using Cons.prems unfolding a
    by (auto simp: Let_def split: if_splits option.splits prod.splits dest!: Cons.IH) blast+
qed

lemma insertPass_entities:
  "insertPass e list b = (list1, b1, r) \<Longrightarrow>
     op_entity ` set b1 \<subseteq> op_entity ` set b \<union> (object \<circ> snd) ` set list"
proof (induction list arbitrary: b list1 b1 r)
  case Nil then show ?case by simp
next
  case (Cons a list)
  obtain k l where a: "a = (k, l)" by (cases a)
  show ?case using Cons.prems unfolding a
    by (auto simp: Let_def split: if_splits option.splits prod.splits dest!: Cons.IH) blast+
qed

lemma skeleton_entities: "(object \<circ> snd) ` set (skeleton a) = (object \<circ> snd) ` set a"
  using arg_cong[OF skeleton_objects[of a], of set] by (simp only: set_map)

lemma assemble_entities:
  assumes "assemble e s = (list, batch, r)"
  shows "op_entity ` set batch \<subseteq> (object \<circ> snd) ` set (objectLinks s)"
proof -
  obtain list1 batch1 r1 where d: "dirtyCheckPass e (objectLinks s) [] = (list1, batch1, r1)"
    by (cases "dirtyCheckPass e (objectLinks s) []") auto
  obtain list2 batch2 r2 where i: "insertPass e list1 batch1 = (list2, batch2, r2)"
    by (cases "insertPass e list1 batch1") auto
  have e1: "(object \<circ> snd) ` set list1 = (object \<circ> snd) ` set (objectLinks s)"
    using skeleton_entities[of list1] skeleton_entities[of "objectLinks s"]
      dirtyCheckPass_skeleton[OF d] by simp
  have e2: "(object \<circ> snd) ` set list2 = (object \<circ> snd) ` set list1"
    using skeleton_entities[of list2] skeleton_entities[of list1]
      insertPass_skeleton[OF i] by simp
  have b1: "op_entity ` set batch1 \<subseteq> (object \<circ> snd) ` set (objectLinks s)"
    using dirtyCheckPass_entities[OF d] by simp
  have b2: "op_entity ` set batch2 \<subseteq> (object \<circ> snd) ` set (objectLinks s)"
    using insertPass_entities[OF i] b1 e1 by auto
  have "object ` set (filter (\<lambda>l. scheduledOperation l = Delete) (map snd list2))
          \<subseteq> (object \<circ> snd) ` set list2"
    by auto
  then have b3: "op_entity ` set (deletePass list2 batch2) \<subseteq> (object \<circ> snd) ` set (objectLinks s)"
    unfolding deletePass_eq using b2 e1 e2 by (auto simp: image_Un image_image)
  show ?thesis
    using assms d i b1 b2 b3
    by (auto simp: assemble_def split: option.splits)
qed

lemma no_operation_without_id:
  assumes "consistent s" and "id_attr s obj = None" and "assemble e s = (list, batch, r)"
  shows "obj \<notin> op_entity ` set batch"
proof
  assume "obj \<in> op_entity ` set batch"
  then have "obj \<in> (object \<circ> snd) ` set (objectLinks s)" using assemble_entities[OF assms(3)] by auto
  then obtain k l where "(k, l) \<in> set (objectLinks s)" "object l = obj" by auto
  then show False using consistent_no_id[OF assms(1,2)] by blast
qed

lemma unlinkObject_keeps_no_id:
  "u_unlinkObject l s = Inr s1 \<Longrightarrow> id_attr s obj = None \<Longrightarrow> id_attr s1 obj = None"
  by (auto simp: u_unlinkObject_def Let_def split: option.splits if_splits)

lemma removeEntity_keeps_no_id:
  assumes "id_attr s n = None" and "removeEntity e obj s = (s', c)"
  shows "id_attr s' n = None"
proof -
  obtain s1 r where gl: "u_getObjectLinks e obj s = (s1, r)" by (cases "u_getObjectLinks e obj s")
  have "id_attr s1 = id_attr s"
    using gl by (cases rule: getObjectLinks_cases) auto
  then have n1: "id_attr s1 n = None" using assms(1) by simp
  show ?thesis
    using assms(2) gl n1 unlinkObject_keeps_no_id[of _ s1 _ n]
    by (auto simp: removeEntity_def split: sum.splits option.splits ObjectState.splits if_splits)
qed

lemma removeEntities_keep_no_id:
  "id_attr s n = None \<Longrightarrow> u_removeEntities e xs s = (s', c) \<Longrightarrow> id_attr s' n = None"
  unfolding u_removeEntities_def
  by (rule forEntities_invariant[where P = "\<lambda>s. id_attr s n = None" and body = "removeEntity e"])
     (auto intro: removeEntity_keeps_no_id)

text \<open>
  C7. Let remove, in a consistent session, have gone through the entities after \<open>obj\<close>
  (it runs in reverse order) without an early return, and let \<open>obj\<close> be linked then,
  Managed, with an insert scheduled. Then the step of the loop for \<open>obj\<close> deletes its
  slot from the table and its \<open>_id\<close>, and goes on with the entities before it; and
  whatever the remove ends with, \<open>obj\<close> then has no \<open>_id\<close>, no link of the table is
  for it, and no flush of that session appends a delete for it to its batch.
\<close>

theorem remove_of_unflushed_insert_unlinks:
  assumes "consistent s"
    and "u_removeEntities e post s = (s1, Success r)"
    and "map_of (objectLinks s1) k = Some l"
    and "object l = obj" and "state l = Managed" and "scheduledOperation l = Insert"
  shows "(\<exists>s2. removeEntity e obj s1 = (s2, None)
            \<and> map_of (objectLinks s2) k = None \<and> id_attr s2 obj = None
            \<and> u_removeEntities e (pre @ obj # post) s = u_removeEntities e pre s2)
       \<and> (\<forall>s' c. u_removeEntities e (pre @ obj # post) s = (s', c) \<longrightarrow>
             id_attr s' obj = None
             \<and> (\<forall>(k', l') \<in> set (objectLinks s'). object l' \<noteq> obj)
             \<and> (\<forall>e2 list batch r2. assemble e2 s' = (list, batch, r2) \<longrightarrow> DeleteOp obj \<notin> set batch))"
proof -
  have c1: "consistent s1" using removeEntities_consistent[OF assms(1,2)] .
  have idk: "id_attr s1 obj = Some k" using consistent_mem[OF c1 assms(3)] assms(4) by simp
  have gl: "u_getObjectLinks e obj s1 = (s1, Inr (Some (k, l)))"
    using idk assms(3) by (simp add: u_getObjectLinks_def)
  obtain s2 where un: "u_unlinkObject l s1 = Inr s2" and c2: "consistent s2"
    and l2: "objectLinks s2 = AList.delete k (objectLinks s1)"
    and i2: "id_attr s2 = (id_attr s1)(obj := None)"
    using unlinkObject_consistent[OF c1 assms(3)] assms(4,6) by auto
  have step: "removeEntity e obj s1 = (s2, None)"
    using gl un assms(5,6) by (simp add: removeEntity_def)
  have gone: "map_of (objectLinks s2) k = None" unfolding l2 by (simp add: AList.delete_conv')
  have noid: "id_attr s2 obj = None" unfolding i2 by simp
  have pre: "forEntities (removeEntity e) (rev post) s = (s1, Success r)"
    using assms(2) by (simp add: u_removeEntities_def)
  have "forEntities (removeEntity e) (rev post @ obj # rev pre) s
        = forEntities (removeEntity e) (obj # rev pre) s1"
    by (rule forEntities_append[OF _ pre]) (rule removeEntity_no_success)
  then have cont: "u_removeEntities e (pre @ obj # post) s = u_removeEntities e pre s2"
    using step by (simp add: u_removeEntities_def)
  have final: "id_attr s' obj = None
             \<and> (\<forall>(k', l') \<in> set (objectLinks s'). object l' \<noteq> obj)
             \<and> (\<forall>e2 list batch r2. assemble e2 s' = (list, batch, r2) \<longrightarrow> DeleteOp obj \<notin> set batch)"
    if run: "u_removeEntities e (pre @ obj # post) s = (s', c)" for s' c
  proof -
    have r2: "u_removeEntities e pre s2 = (s', c)" using run cont by simp
    have c': "consistent s'" using removeEntities_consistent[OF c2 r2] .
    have n': "id_attr s' obj = None" using removeEntities_keep_no_id[OF noid r2] .
    have "DeleteOp obj \<notin> set batch" if "assemble e2 s' = (list, batch, r2)" for e2 list batch r2
      using no_operation_without_id[OF c' n' that] by force
    then show ?thesis using n' consistent_no_id[OF c' n'] by blast
  qed
  show ?thesis using step gone noid cont final by blast
qed


lemmas remove_eval = u_removeEntities_def removeEntity_def u_getObjectLinks_def u_unlinkObject_def
  setLink_def Let_def

theorem remove_of_unflushed_insert_unlinks_witness:
  "consistent session1
   \<and> u_removeEntities (env0 None) [] session1 = (session1, Success None)
   \<and> map_of (objectLinks session1) (key ''new'')
       = Some \<lparr>state = Managed, scheduledOperation = Insert, object = 1,
                originalDocument = None, persister = persister0\<rparr>
   \<and> snd (u_removeEntities (env0 None) ([3] @ 1 # []) session1) = Success None
   \<and> id_attr (fst (u_removeEntities (env0 None) ([3] @ 1 # []) session1)) 1 = None
   \<and> map fst (objectLinks (fst (u_removeEntities (env0 None) ([3] @ 1 # []) session1))) = [key ''b'', key ''c'']
   \<and> fst (snd (assemble (env0 None) (fst (u_removeEntities (env0 None) ([3] @ 1 # []) session1))))
       = [DeleteOp 5, DeleteOp 3]"
proof -
  have a: "consistent session1" by (simp add: consistent_def session1_def)
  have b: "u_removeEntities (env0 None) [] session1 = (session1, Success None)"
    by (simp add: u_removeEntities_def)
  have c: "map_of (objectLinks session1) (key ''new'')
       = Some \<lparr>state = Managed, scheduledOperation = Insert, object = 1,
                originalDocument = None, persister = persister0\<rparr>"
    by (simp add: session1_def)
  from remove_of_unflushed_insert_unlinks [OF a b c, of 1 "[3]"]
  have "id_attr (fst (u_removeEntities (env0 None) ([3] @ 1 # []) session1)) 1 = None"
    by (cases "u_removeEntities (env0 None) ([3] @ 1 # []) session1") simp
  then show ?thesis using a b c
    by (simp add: remove_eval flush_eval session1_def)
qed

section \<open>A failed flush leaves the session usable\<close>

lemma dirtyCheckPass_no_error:
  assumes "\<forall>p obj d. res_error (p_dirtyCheck e p obj d) = None"
  shows "snd (snd (dirtyCheckPass e list b)) = None"
proof (induction list arbitrary: b)
  case Nil then show ?case by simp
next
  case (Cons a list)
  obtain k l where a: "a = (k, l)" by (cases a)
  show ?case unfolding a using assms Cons.IH
    by (auto simp: Let_def split: prod.splits option.splits) (metis snd_conv)+
qed

lemma insertPass_no_error:
  assumes "\<forall>p obj. res_error (p_insert e p obj) = None"
  shows "snd (snd (insertPass e list b)) = None"
proof (induction list arbitrary: b)
  case Nil then show ?case by simp
next
  case (Cons a list)
  obtain k l where a: "a = (k, l)" by (cases a)
  show ?case unfolding a using assms Cons.IH
    by (auto simp: Let_def split: prod.splits option.splits) (metis snd_conv)+
qed

lemma assemble_no_error:
  assumes "\<forall>p obj d. res_error (p_dirtyCheck e p obj d) = None"
    and "\<forall>p obj. res_error (p_insert e p obj) = None"
  shows "snd (snd (assemble e s)) = None"
proof -
  obtain list1 batch1 where d: "dirtyCheckPass e (objectLinks s) [] = (list1, batch1, None)"
    using dirtyCheckPass_no_error[OF assms(1), of "objectLinks s" "[]"]
    by (cases "dirtyCheckPass e (objectLinks s) []") auto
  obtain list2 batch2 where i: "insertPass e list1 batch1 = (list2, batch2, None)"
    using insertPass_no_error[OF assms(2), of list1 batch1]
    by (cases "insertPass e list1 batch1") auto
  show ?thesis using d i by (simp add: assemble_def)
qed

lemma flush_succeeds:
  assumes "consistent s" and "assemble e s = (list, batch, None)" and "batch_execute e batch = None"
  shows "\<exists>s'. u_flush e s = (s', Success None)"
proof -
  have "snd (u_flush e s) \<noteq> Throws x" for x by (rule flush_never_throws[OF assms(1)])
  moreover have "\<exists>s' c. u_flush e s = (s', c) \<and> (c = Success None \<or> (\<exists>x. c = Throws x))"
    using assms(2,3) by (auto simp: u_flush_def split: prod.splits option.splits)
  ultimately show ?thesis by (metis snd_conv)
qed

text \<open>
  C6. A flush whose batch execution reports an error passes the error to its callback
  and leaves the session as the three passes left it: nothing marks the session, and
  \<open>_execute\<close> runs what it is given afterwards. In \<open>session1\<close> entity 3 is changed
  (its original document is 4, its current document 1) and the batch of the flush is an
  update of 3, an insert of 1 and a delete of 5. When the execution of that batch fails,
  the flush fails with that error; a save of the new entity 2 that runs next completes
  without error and makes the entity managed; and the next flush completes without error
  with a batch that no longer holds the update of entity 3, whose original document the
  failed flush had replaced.
\<close>

theorem failed_flush_leaves_session_usable:
  "fst (snd (assemble (env2 (Some (External 1))) session1)) = [UpdateOp 3, InsertOp 1, DeleteOp 5]
   \<and> snd (run (env2 (Some (External 1))) flush session1) = Failure (External 1)
   \<and> snd (run (env2 (Some (External 1))) (save 2) (fst (run (env2 (Some (External 1))) flush session1))) = Success None
   \<and> contains (fst (run (env2 (Some (External 1))) (save 2) (fst (run (env2 (Some (External 1))) flush session1)))) 2
   \<and> \<not> contains (fst (run (env2 (Some (External 1))) flush session1)) 2
   \<and> fst (snd (assemble (env2 None) (fst (run (env2 (Some (External 1))) flush session1)))) = [InsertOp 1, DeleteOp 5]
   \<and> snd (run (env2 None) flush (fst (run (env2 (Some (External 1))) flush session1))) = Success None"
proof -
  have f: "run (env2 (Some (External 1))) flush session1 =
     (session1\<lparr>objectLinks :=
        [(key ''b'', \<lparr>state = Removed, scheduledOperation = Delete, object = 5,
                  originalDocument = Some 9, persister = persister0\<rparr>),
         (key ''new'', \<lparr>state = Managed, scheduledOperation = Insert, object = 1,
                    originalDocument = Some 2, persister = persister0\<rparr>),
         (key ''c'', \<lparr>state = Managed, scheduledOperation = OpNone, object = 3,
                  originalDocument = Some 1, persister = persister0\<rparr>)]\<rparr>, Failure (External 1))"
    by (simp add: run_def flush_def u_execute_def flush_eval env2_def session1_def)
  have a: "fst (snd (assemble (env2 (Some (External 1))) session1)) = [UpdateOp 3, InsertOp 1, DeleteOp 5]"
    by (simp add: flush_eval env2_def session1_def)
  have s: "snd (run (env2 (Some (External 1))) (save 2) (fst (run (env2 (Some (External 1))) flush session1))) = Success None
     \<and> contains (fst (run (env2 (Some (External 1))) (save 2) (fst (run (env2 (Some (External 1))) flush session1)))) 2
     \<and> \<not> contains (fst (run (env2 (Some (External 1))) flush session1)) 2"
    unfolding f by (simp add: save_eval env2_def session1_def contains_def persister0_def)
  have n: "fst (snd (assemble (env2 None) (fst (run (env2 (Some (External 1))) flush session1)))) = [InsertOp 1, DeleteOp 5]
     \<and> snd (run (env2 None) flush (fst (run (env2 (Some (External 1))) flush session1))) = Success None"
    unfolding f by (simp add: run_def flush_def u_execute_def flush_eval env2_def session1_def)
  from a f s n show ?thesis by simp
qed

section \<open>The session of the examples is reachable\<close>

lemmas fetch_eval = run_def fetch_def u_execute_def u_fetch_def u_fetchPaths_def collaborate_def
  registerManaged_def u_linkObject_def setLink_def Let_def env0_def env1_def

lemma session1_steps:
  "session1 =
     fst (run (env0 None) (remove_s 5)
       (fst (run env1 (fetch (Ref \<lparr>ref_mapping = Some 0, ref_id = IdValue (key ''c'')\<rparr>) IsFunction)
         (fst (run (env0 None) (save 1)
           (fst (run (env0 None) (fetch (Ref \<lparr>ref_mapping = Some 0, ref_id = IdValue (key ''b'')\<rparr>) IsFunction)
              session0)))))))"
proof -
  have 1: "fst (run (env0 None) (fetch (Ref \<lparr>ref_mapping = Some 0, ref_id = IdValue (key ''b'')\<rparr>) IsFunction) session0)
    = session0\<lparr>objectLinks := [(key ''b'', \<lparr>state = Managed, scheduledOperation = OpNone, object = 5,
                  originalDocument = Some 9, persister = persister0\<rparr>)]\<rparr>"
    by (simp add: fetch_eval session0_def)
  have 2: "fst (run (env0 None) (save 1) (session0\<lparr>objectLinks := [(key ''b'', \<lparr>state = Managed, scheduledOperation = OpNone, object = 5,
                  originalDocument = Some 9, persister = persister0\<rparr>)]\<rparr>))
    = session0\<lparr>objectLinks := [(key ''b'', \<lparr>state = Managed, scheduledOperation = OpNone, object = 5,
                  originalDocument = Some 9, persister = persister0\<rparr>),
         (key ''new'', \<lparr>state = Managed, scheduledOperation = Insert, object = 1,
                    originalDocument = None, persister = persister0\<rparr>)],
        persisterByMapping := (\<lambda>m. None)(0 \<mapsto> persister0),
        id_attr := (id_attr session0)(1 \<mapsto> (key ''new'')), generated := 1\<rparr>"
    by (simp add: save_eval session0_def persister0_def)
  show ?thesis
    unfolding 1 2
    by (simp add: fetch_eval session0_def session1_def persister0_def fun_eq_iff
      remove_s_def u_remove_def u_findReferencedEntities_def u_walk_def remove_eval)
qed

lemma session1_reachable: "reachable session1"
proof -
  have "reachable session0" by (rule reachable.new) (simp_all add: session0_def)
  then show ?thesis unfolding session1_steps by (intro reachable.step)
qed

end
